theory Spec2Isabelle
  imports Main "HOL-Library.Word"
begin

section \<open>Byte slices and the memory they live in\<close>

text \<open>
  A Go byte slice is a window (backing array, offset, length) onto an array in memory;
  two slices may share an array. Arrays are kept in a store indexed by address;
  \<open>allocated\<close> is the first address that \<open>make\<close> (here \<open>make_bytes\<close>) has not handed out yet.
  A string is a \<open>char list\<close>, and a \<open>char\<close> is a byte. The nil slice
  is the slice of length 0 (the code never compares a slice with nil).
\<close>

record slice =
  sl_array :: nat
  sl_off :: nat
  sl_len :: nat

record memory =
  cells :: "nat \<Rightarrow> string"
  allocated :: nat

definition nil_slice :: slice where
  "nil_slice = \<lparr>sl_array = 0, sl_off = 0, sl_len = 0\<rparr>"

definition contents :: "memory \<Rightarrow> slice \<Rightarrow> string" where
  "contents mem s = take (sl_len s) (drop (sl_off s) (cells mem (sl_array s)))"

definition in_bounds :: "memory \<Rightarrow> slice \<Rightarrow> bool" where
  "in_bounds mem s =
     (sl_len s = 0 \<or>
      (sl_array s < allocated mem \<and> sl_off s + sl_len s \<le> length (cells mem (sl_array s))))"

text \<open>\<open>make([]byte, n)\<close>: a fresh array of \<open>n\<close> zero bytes.\<close>

definition make_bytes :: "memory \<Rightarrow> nat \<Rightarrow> slice \<times> memory" where
  "make_bytes mem n =
     (\<lparr>sl_array = allocated mem, sl_off = 0, sl_len = n\<rparr>,
      mem\<lparr>cells := (cells mem)(allocated mem := replicate n (CHR 0x00)),
          allocated := Suc (allocated mem)\<rparr>)"

text \<open>\<open>copy(dst, src)\<close>: the first \<open>min (len dst) (len src)\<close> bytes of
  \<open>src\<close> overwrite the start of \<open>dst\<close>, in \<open>dst\<close>'s array.\<close>

definition copy :: "memory \<Rightarrow> slice \<Rightarrow> slice \<Rightarrow> memory" where
  "copy mem dst src =
     (let n = min (sl_len dst) (sl_len src);
          old = cells mem (sl_array dst);
          new = take (sl_off dst) old @ take n (contents mem src) @ drop (sl_off dst + n) old
      in if n = 0 then mem else mem\<lparr>cells := (cells mem)(sl_array dst := new)\<rparr>)"

text \<open>\<open>s[i] = x\<close>: an index out of range panics (the result is \<open>None\<close>).\<close>

definition store_byte :: "memory \<Rightarrow> slice \<Rightarrow> nat \<Rightarrow> char \<Rightarrow> memory option" where
  "store_byte mem s i x =
     (if i < sl_len s
      then Some (mem\<lparr>cells := (cells mem)(sl_array s := (cells mem (sl_array s))[sl_off s + i := x])\<rparr>)
      else None)"

text \<open>\<open>[]byte(str)\<close>: a fresh array holding the bytes of a string.\<close>

definition bytes_of_string :: "memory \<Rightarrow> string \<Rightarrow> slice \<times> memory" where
  "bytes_of_string mem str =
     (\<lparr>sl_array = allocated mem, sl_off = 0, sl_len = length str\<rparr>,
      mem\<lparr>cells := (cells mem)(allocated mem := str), allocated := Suc (allocated mem)\<rparr>)"

section \<open>byteview.go\<close>

record ByteView =
  b :: slice

definition Len :: "ByteView \<Rightarrow> int" where
  "Len v = int (sl_len (b v))"

definition cloneBytes :: "memory \<Rightarrow> slice \<Rightarrow> slice \<times> memory" where
  "cloneBytes mem bs =
     (let (c, mem1) = make_bytes mem (sl_len bs)
      in (c, copy mem1 c bs))"

definition ByteSlice :: "memory \<Rightarrow> ByteView \<Rightarrow> slice \<times> memory" where
  "ByteSlice mem v = cloneBytes mem (b v)"

definition String :: "memory \<Rightarrow> ByteView \<Rightarrow> string" where
  "String mem v = contents mem (b v)"

section \<open>lru.go\<close>

text \<open>
  The store keeps a \<open>container/list\<close> list of elements and a map from keys to
  elements; each element's \<open>Value\<close> points to an \<open>entry\<close>. Elements are
  addresses: \<open>ll\<close> is the list from front to back, \<open>Value\<close> gives the entry an
  element holds, \<open>cache\<close> is the index. The callback \<open>OnEvicted\<close> runs on the
  part of the program state it captures, \<open>evict_env\<close>. The counters are
  \<open>int64\<close>; they are modelled as unbounded integers (a wrap-around needs
  \<open>2^63\<close> bytes of resident keys and values).

  The values of the store are of the interface \<open>lru.Value\<close>, whose one method is
  \<open>Len() int\<close>. They are of a type \<open>'v\<close>, and the operations that call the
  method take it as the function \<open>vlen\<close>: it returns any \<open>int\<close>, also a
  negative one, and is taken to depend on the value only. The entries of elements
  that do not exist are not specified.
\<close>

record 'v entry =
  entry_key :: string
  entry_value :: 'v

record ('v, 'w) Cache =
  maxBytes :: int
  nbytes :: int
  ll :: "nat list"
  Value :: "nat \<Rightarrow> 'v entry"
  cache :: "string \<rightharpoonup> nat"
  OnEvicted :: "(string \<Rightarrow> 'v \<Rightarrow> 'w \<Rightarrow> 'w) option"
  evict_env :: 'w

text \<open>The operations of \<open>container/list\<close> the store uses.\<close>

definition MoveToFront :: "nat list \<Rightarrow> nat \<Rightarrow> nat list" where
  "MoveToFront l e = (if e \<in> set l then e # remove1 e l else l)"

definition new_element :: "nat list \<Rightarrow> nat" where
  "new_element l = Suc (fold max l 0)"

definition Back :: "nat list \<Rightarrow> nat option" where
  "Back l = (if l = [] then None else Some (last l))"

definition Remove :: "nat list \<Rightarrow> nat \<Rightarrow> nat list" where
  "Remove l e = remove1 e l"

definition New :: "int \<Rightarrow> (string \<Rightarrow> 'v \<Rightarrow> 'w \<Rightarrow> 'w) option \<Rightarrow> 'w \<Rightarrow> ('v, 'w) Cache" where
  "New maxBytes' onEvicted w =
     \<lparr>maxBytes = maxBytes', nbytes = 0, ll = [], Value = (\<lambda>_. undefined),
      cache = Map.empty, OnEvicted = onEvicted, evict_env = w\<rparr>"

definition Get :: "('v, 'w) Cache \<Rightarrow> string \<Rightarrow> ('v, 'w) Cache \<times> 'v option" where
  "Get c key =
     (case cache c key of
        Some ele \<Rightarrow> (c\<lparr>ll := MoveToFront (ll c) ele\<rparr>, Some (entry_value (Value c ele)))
      | None \<Rightarrow> (c, None))"

definition RemoveOldest :: "('v \<Rightarrow> int) \<Rightarrow> ('v, 'w) Cache \<Rightarrow> ('v, 'w) Cache" where
  "RemoveOldest vlen c =
     (case Back (ll c) of
        None \<Rightarrow> c
      | Some ele \<Rightarrow>
          (let kv = Value c ele;
               c1 = c\<lparr>ll := Remove (ll c) ele,
                      cache := (cache c)(entry_key kv := None),
                      nbytes := nbytes c - (int (length (entry_key kv)) + vlen (entry_value kv))\<rparr>
           in case OnEvicted c of
                None \<Rightarrow> c1
              | Some f \<Rightarrow> c1\<lparr>evict_env := f (entry_key kv) (entry_value kv) (evict_env c1)\<rparr>))"

text \<open>\<open>Add\<close>, first part: the update or the insertion (the \<open>if\<close>/\<open>else\<close>).\<close>

definition Add_entry :: "('v \<Rightarrow> int) \<Rightarrow> ('v, 'w) Cache \<Rightarrow> string \<Rightarrow> 'v \<Rightarrow> ('v, 'w) Cache" where
  "Add_entry vlen c key val =
     (case cache c key of
        Some ele \<Rightarrow>
          (let kv = Value c ele
           in c\<lparr>ll := MoveToFront (ll c) ele,
                nbytes := nbytes c + (vlen val - vlen (entry_value kv)),
                Value := (Value c)(ele := kv\<lparr>entry_value := val\<rparr>)\<rparr>)
      | None \<Rightarrow>
          (let ele = new_element (ll c)
           in c\<lparr>ll := ele # ll c,
                Value := (Value c)(ele := \<lparr>entry_key = key, entry_value = val\<rparr>),
                cache := (cache c)(key \<mapsto> ele),
                nbytes := nbytes c + (int (length key) + vlen val)\<rparr>))"

text \<open>\<open>Add\<close>, second part: the eviction loop. It need not terminate: on an empty
  list \<open>RemoveOldest\<close> changes nothing, so \<open>None\<close> stands for a loop that runs
  forever.\<close>

partial_function (option) Add_evict :: "('v \<Rightarrow> int) \<Rightarrow> ('v, 'w) Cache \<Rightarrow> ('v, 'w) Cache option" where
  "Add_evict vlen c =
     (if maxBytes c \<noteq> 0 \<and> maxBytes c < nbytes c then Add_evict vlen (RemoveOldest vlen c) else Some c)"

definition Add :: "('v \<Rightarrow> int) \<Rightarrow> ('v, 'w) Cache \<Rightarrow> string \<Rightarrow> 'v \<Rightarrow> ('v, 'w) Cache option" where
  "Add vlen c key val = Add_evict vlen (Add_entry vlen c key val)"

definition Len_cache :: "('v, 'w) Cache \<Rightarrow> nat" where
  "Len_cache c = length (ll c)"

declare Add_evict.simps [code]

subsection \<open>Invariants of the store\<close>

text \<open>The size of an entry as \<open>Add\<close> and \<open>RemoveOldest\<close> count it, and the
  sum of the sizes of the entries in the list.\<close>

definition entry_size :: "('v \<Rightarrow> int) \<Rightarrow> 'v entry \<Rightarrow> int" where
  "entry_size vlen e = int (length (entry_key e)) + vlen (entry_value e)"

definition resident_bytes :: "('v \<Rightarrow> int) \<Rightarrow> ('v, 'w) Cache \<Rightarrow> int" where
  "resident_bytes vlen c = sum_list (map (\<lambda>a. entry_size vlen (Value c a)) (ll c))"

text \<open>The list and the index describe the same entries: no element is in the list
  twice, the index sends a key to an element of the list that holds this key, and every
  element of the list is indexed under its key.\<close>

definition wf_cache :: "('v, 'w) Cache \<Rightarrow> bool" where
  "wf_cache c =
     (distinct (ll c) \<and>
      (\<forall>k a. cache c k = Some a \<longrightarrow> a \<in> set (ll c) \<and> entry_key (Value c a) = k) \<and>
      (\<forall>a \<in> set (ll c). cache c (entry_key (Value c a)) = Some a))"



subsection \<open>Sequences of operations and the time of the last touch\<close>

datatype 'v op = OpAdd string 'v | OpGet string | OpRemoveOldest

fun step_op :: "('v \<Rightarrow> int) \<Rightarrow> 'v op \<Rightarrow> ('v, 'w) Cache \<Rightarrow> ('v, 'w) Cache option" where
  "step_op vlen (OpAdd k v) c = Add vlen c k v"
| "step_op vlen (OpGet k) c = Some (fst (Get c k))"
| "step_op vlen OpRemoveOldest c = Some (RemoveOldest vlen c)"

fun run_ops :: "('v \<Rightarrow> int) \<Rightarrow> 'v op list \<Rightarrow> ('v, 'w) Cache \<Rightarrow> ('v, 'w) Cache option" where
  "run_ops vlen [] c = Some c"
| "run_ops vlen (x # xs) c = (case step_op vlen x c of None \<Rightarrow> None | Some c' \<Rightarrow> run_ops vlen xs c')"

text \<open>\<open>Add\<close> and \<open>Get\<close> touch the key they are called with. The
  operations of a sequence are numbered from 1; \<open>last_touch ops k\<close> is the number
  of the last operation that touched \<open>k\<close> (0 when none did). \<open>added\<close> is
  the key an operation may insert.\<close>

fun touched :: "'v op \<Rightarrow> string option" where
  "touched (OpAdd k v) = Some k"
| "touched (OpGet k) = Some k"
| "touched OpRemoveOldest = None"

definition touch :: "'v op \<Rightarrow> nat \<Rightarrow> (string \<Rightarrow> nat) \<Rightarrow> (string \<Rightarrow> nat)" where
  "touch x n t = (case touched x of Some k \<Rightarrow> t(k := n) | None \<Rightarrow> t)"

fun stamp :: "nat \<Rightarrow> 'v op list \<Rightarrow> (string \<Rightarrow> nat) \<Rightarrow> (string \<Rightarrow> nat)" where
  "stamp n [] t = t"
| "stamp n (x # xs) t = stamp (Suc n) xs (touch x (Suc n) t)"

definition last_touch :: "'v op list \<Rightarrow> string \<Rightarrow> nat" where
  "last_touch ops = stamp 0 ops (\<lambda>_. 0)"

fun added :: "'v op \<Rightarrow> string set" where
  "added (OpAdd k v) = {k}"
| "added (OpGet k) = {}"
| "added OpRemoveOldest = {}"

text \<open>The list is in the order of the last touch, the most recent first, at time
  \<open>n\<close> with touch times \<open>t\<close>.\<close>

definition recency_ordered :: "nat \<Rightarrow> (string \<Rightarrow> nat) \<Rightarrow> ('v, 'w) Cache \<Rightarrow> bool" where
  "recency_ordered n t c =
     (wf_cache c \<and>
      sorted_wrt (\<lambda>a a'. t (entry_key (Value c a')) < t (entry_key (Value c a))) (ll c) \<and>
      (\<forall>a \<in> set (ll c). t (entry_key (Value c a)) \<le> n))"

section \<open>consistenthash.go\<close>

text \<open>
  The ring keeps the hashes of its virtual nodes in \<open>keys\<close> and the node of each
  hash in \<open>hashMap\<close>. A hash is a \<open>uint32\<close>; \<open>int(...)\<close> of it is its
  unsigned value (\<open>int\<close> has 64 bits). The default hash, \<open>crc32.ChecksumIEEE\<close>
  of the standard library, is a parameter of \<open>New\<close>. The functions are named after
  their package, since \<open>lru\<close> has a \<open>New\<close>, an \<open>Add\<close> and a \<open>Get\<close>
  too.
\<close>

type_synonym Hash = "string \<Rightarrow> 32 word"

record ring_Map =
  hash :: Hash
  replicas :: int
  keys :: "int list"
  hashMap :: "int \<rightharpoonup> string"

definition consistenthash_New :: "Hash \<Rightarrow> int \<Rightarrow> Hash option \<Rightarrow> ring_Map" where
  "consistenthash_New ChecksumIEEE replicas' fn =
     \<lparr>hash = (case fn of None \<Rightarrow> ChecksumIEEE | Some f \<Rightarrow> f),
      replicas = replicas', keys = [], hashMap = Map.empty\<rparr>"

text \<open>\<open>strconv.Itoa\<close> of a loop index, which is never negative.\<close>

function Itoa :: "nat \<Rightarrow> string" where
  "Itoa n =
     (if n < 10 then [''0123456789'' ! n]
      else Itoa (n div 10) @ [''0123456789'' ! (n mod 10)])"
  by pat_completeness auto
termination
  by (relation "measure id") auto

declare Itoa.simps [simp del]

text \<open>The body of the inner loop of \<open>Add\<close>, the inner loop for one node, and
  \<open>Add\<close>: both loops, then \<open>sort.Ints\<close>.\<close>

definition Add_replica :: "ring_Map \<Rightarrow> string \<Rightarrow> nat \<Rightarrow> ring_Map" where
  "Add_replica r node i =
     (let h = uint (hash r (Itoa i @ node))
      in r\<lparr>keys := keys r @ [h], hashMap := (hashMap r)(h \<mapsto> node)\<rparr>)"

definition Add_node :: "ring_Map \<Rightarrow> string \<Rightarrow> ring_Map" where
  "Add_node r node = fold (\<lambda>i r'. Add_replica r' node i) [0..<nat (replicas r)] r"

definition consistenthash_Add :: "ring_Map \<Rightarrow> string list \<Rightarrow> ring_Map" where
  "consistenthash_Add r nodes =
     (let r' = fold (\<lambda>node r'. Add_node r' node) nodes r
      in r'\<lparr>keys := sort (keys r')\<rparr>)"

text \<open>\<open>sort.Search(n, f)\<close>: the binary search of the standard library.\<close>

function Search_loop :: "(nat \<Rightarrow> bool) \<Rightarrow> nat \<Rightarrow> nat \<Rightarrow> nat" where
  "Search_loop f i j =
     (if i < j
      then (let h = (i + j) div 2
            in if \<not> f h then Search_loop f (h + 1) j else Search_loop f i h)
      else i)"
  by pat_completeness auto
termination
  by (relation "measure (\<lambda>(f, i, j). j - i)") auto

declare Search_loop.simps [simp del]

definition Search :: "nat \<Rightarrow> (nat \<Rightarrow> bool) \<Rightarrow> nat" where
  "Search n f = Search_loop f 0 n"

text \<open>A key missing from a Go map reads as the zero value, the empty string.\<close>

definition consistenthash_Get :: "ring_Map \<Rightarrow> string \<Rightarrow> string" where
  "consistenthash_Get r key =
     (if length (keys r) = 0 then ''''
      else (let h = uint (hash r key);
                idx = Search (length (keys r)) (\<lambda>i. keys r ! i \<ge> h)
            in case hashMap r (keys r ! (idx mod length (keys r))) of
                 None \<Rightarrow> ''''
               | Some node \<Rightarrow> node))"

text \<open>The lookup in the words of the specification: the first virtual-node hash that is
  at least the key's hash, or the first element when there is none.\<close>

definition ring_owner :: "int list \<Rightarrow> int \<Rightarrow> int" where
  "ring_owner ks h = (case find (\<lambda>k. h \<le> k) ks of Some k \<Rightarrow> k | None \<Rightarrow> hd ks)"

text \<open>A ring as the code builds it: \<open>New\<close>, then any number of calls of \<open>Add\<close>.\<close>

definition ring_of :: "Hash \<Rightarrow> int \<Rightarrow> Hash option \<Rightarrow> string list list \<Rightarrow> ring_Map" where
  "ring_of ChecksumIEEE replicas' fn batches =
     fold (\<lambda>nodes r. consistenthash_Add r nodes) batches (consistenthash_New ChecksumIEEE replicas' fn)"

text \<open>Every hash in \<open>keys\<close> has its node in \<open>hashMap\<close>.\<close>

definition ring_ok :: "ring_Map \<Rightarrow> bool" where
  "ring_ok r = (set (keys r) \<subseteq> dom (hashMap r))"

section \<open>Results of calls\<close>

text \<open>
  A call returns, panics (a fatal error of the program), or never returns (a loop
  that spins, or a wait that nothing ends). An \<open>error\<close> is the text of its
  \<open>Error()\<close>; a Go result pair \<open>(value, err)\<close> is a sum, \<open>Inl\<close> the
  error.
\<close>

datatype 'a outcome = Returns 'a | Panics string | Hangs

type_synonym error = string

section \<open>singleflight.go, one caller at a time\<close>

text \<open>
  The table of calls in flight. For a single caller \<open>Do\<close> finds the table as
  other goroutines left it: when the key has an entry whose wait group is still
  counting, \<open>Wait\<close> blocks and no step of this caller ends it. \<open>fn\<close> runs on the
  state \<open>s\<close> it captures. The interleaving of several callers is modelled separately,
  below.
\<close>

record 'r call =
  wg :: nat
  val_err :: "'r option"

record 'r singleflight_Group =
  m :: "(string \<rightharpoonup> 'r call) option"

definition Do :: "'r singleflight_Group \<Rightarrow> string \<Rightarrow> ('s \<Rightarrow> ('r \<times> 's) outcome) \<Rightarrow> 's
                    \<Rightarrow> ('r \<times> 'r singleflight_Group \<times> 's) outcome" where
  "Do g key fn s =
     (let tbl = (case m g of None \<Rightarrow> Map.empty | Some t \<Rightarrow> t)
      in case tbl key of
           Some c \<Rightarrow>
             (if wg c = 0
              then (case val_err c of
                      Some r \<Rightarrow> Returns (r, g\<lparr>m := Some tbl\<rparr>, s)
                    | None \<Rightarrow> Hangs)
              else Hangs)
         | None \<Rightarrow>
             (case fn s of
                Returns (r, s') \<Rightarrow> Returns (r, g\<lparr>m := Some (tbl(key := None))\<rparr>, s')
              | Panics p \<Rightarrow> Panics p
              | Hangs \<Rightarrow> Hangs))"

section \<open>cache.go\<close>

text \<open>The store of a group: the LRU store, created on the first \<open>add\<close>, with no
  eviction callback. The mutex is not modelled (one caller at a time).\<close>

record cache =
  lru :: "(ByteView, unit) Cache option"
  cacheBytes :: int

definition add :: "cache \<Rightarrow> string \<Rightarrow> ByteView \<Rightarrow> cache option" where
  "add c key val =
     (let l = (case lru c of None \<Rightarrow> New (cacheBytes c) None () | Some l \<Rightarrow> l)
      in case Add Len l key val of
           None \<Rightarrow> None
         | Some l' \<Rightarrow> Some (c\<lparr>lru := Some l'\<rparr>))"

definition get :: "cache \<Rightarrow> string \<Rightarrow> cache \<times> ByteView option" where
  "get c key =
     (case lru c of
        None \<Rightarrow> (c, None)
      | Some l \<Rightarrow>
          (case Get l key of
             (l', Some v) \<Rightarrow> (c\<lparr>lru := Some l'\<rparr>, Some v)
           | (l', None) \<Rightarrow> (c\<lparr>lru := Some l'\<rparr>, None)))"

section \<open>geecache.go\<close>

text \<open>
  The callbacks of a group run on the world outside it: the memory of byte arrays
  and whatever else they capture (\<open>ext\<close>). A getter returns a slice or an error;
  a peer picker reads the world and names a peer or none; a peer getter fetches the
  bytes of a group and key. Callbacks are taken to return. The field \<open>getter\<close>
  is of an interface type: \<open>None\<close> is its nil.
\<close>

record 'e world =
  heap :: memory
  ext :: 'e

type_synonym 'e Getter = "string \<Rightarrow> 'e world \<Rightarrow> (error + slice) \<times> 'e world"

type_synonym 'e PeerGetter = "string \<Rightarrow> string \<Rightarrow> 'e world \<Rightarrow> (error + slice) \<times> 'e world"

type_synonym 'e PeerPicker = "string \<Rightarrow> 'e world \<Rightarrow> 'e PeerGetter option"

record 'e Group =
  name :: string
  getter :: "'e Getter option"
  mainCache :: cache
  peers :: "'e PeerPicker option"
  loader :: "(error + ByteView) singleflight_Group"

text \<open>The registry \<open>groups\<close>. A group is reached through the registry only, so
  the registry holds the group itself.\<close>

type_synonym 'e groups = "string \<rightharpoonup> 'e Group"

text \<open>\<open>NewGroup\<close>, as the file with the coalescer has it: two comments
  \<open>// ...\<close> stand where the check of the getter, the fields \<open>name\<close>,
  \<open>getter\<close> and \<open>mainCache\<close>, and the registration would be. The group it
  returns has its \<open>loader\<close> set and every other field at its zero value;
  \<open>groups\<close> is not written, and the arguments are not read.\<close>

definition NewGroup :: "string \<Rightarrow> int \<Rightarrow> 'e Getter option \<Rightarrow> 'e groups \<Rightarrow> ('e Group \<times> 'e groups) outcome" where
  "NewGroup name' cacheBytes' getter' gs =
     (let g = \<lparr>name = [], getter = None,
               mainCache = \<lparr>lru = None, cacheBytes = 0\<rparr>,
               peers = None, loader = \<lparr>m = None\<rparr>\<rparr>
      in Returns (g, gs))"

definition GetGroup :: "'e groups \<Rightarrow> string \<Rightarrow> 'e Group option" where
  "GetGroup gs name' = gs name'"

definition RegisterPeers :: "'e Group \<Rightarrow> 'e PeerPicker \<Rightarrow> 'e Group outcome" where
  "RegisterPeers g peers' =
     (case peers g of
        Some _ \<Rightarrow> Panics ''RegisterPeerPicker called more than once''
      | None \<Rightarrow> Returns (g\<lparr>peers := Some peers'\<rparr>))"

definition populateCache :: "'e Group \<Rightarrow> string \<Rightarrow> ByteView \<Rightarrow> 'e Group option" where
  "populateCache g key val =
     (case add (mainCache g) key val of
        None \<Rightarrow> None
      | Some c \<Rightarrow> Some (g\<lparr>mainCache := c\<rparr>))"

definition getLocally :: "'e Group \<Rightarrow> string \<Rightarrow> 'e world
                           \<Rightarrow> ((error + ByteView) \<times> 'e Group \<times> 'e world) outcome" where
  "getLocally g key w =
     (case getter g of
        None \<Rightarrow> Panics ''runtime error: invalid memory address or nil pointer dereference''
      | Some f \<Rightarrow>
          (case f key w of
             (Inl err, w1) \<Rightarrow> Returns (Inl err, g, w1)
           | (Inr bytes, w1) \<Rightarrow>
               (let (c, mem') = cloneBytes (heap w1) bytes;
                    val = \<lparr>b = c\<rparr>
                in case populateCache g key val of
                     None \<Rightarrow> Hangs
                   | Some g' \<Rightarrow> Returns (Inr val, g', w1\<lparr>heap := mem'\<rparr>))))"

definition getFromPeer :: "'e Group \<Rightarrow> 'e PeerGetter \<Rightarrow> string \<Rightarrow> 'e world
                            \<Rightarrow> (error + ByteView) \<times> 'e world" where
  "getFromPeer g peer key w =
     (case peer (name g) key w of
        (Inl err, w1) \<Rightarrow> (Inl err, w1)
      | (Inr bytes, w1) \<Rightarrow> (Inr \<lparr>b = bytes\<rparr>, w1))"

text \<open>The function \<open>load\<close> hands to the coalescer, and \<open>load\<close>.\<close>

definition load_fn :: "string \<Rightarrow> 'e Group \<times> 'e world
                        \<Rightarrow> ((error + ByteView) \<times> 'e Group \<times> 'e world) outcome" where
  "load_fn key s =
     (case s of (g, w) \<Rightarrow>
        (case peers g of
           None \<Rightarrow> getLocally g key w
         | Some pick \<Rightarrow>
             (case pick key w of
                None \<Rightarrow> getLocally g key w
              | Some peer \<Rightarrow>
                  (case getFromPeer g peer key w of
                     (Inr val, w1) \<Rightarrow> Returns (Inr val, g, w1)
                   | (Inl err, w1) \<Rightarrow> getLocally g key w1))))"

definition load :: "'e Group \<Rightarrow> string \<Rightarrow> 'e world
                     \<Rightarrow> ((error + ByteView) \<times> 'e Group \<times> 'e world) outcome" where
  "load g key w =
     (case Do (loader g) key (load_fn key) (g, w) of
        Returns (r, ld, (g', w')) \<Rightarrow> Returns (r, g'\<lparr>loader := ld\<rparr>, w')
      | Panics p \<Rightarrow> Panics p
      | Hangs \<Rightarrow> Hangs)"

definition Group_Get :: "'e Group \<Rightarrow> string \<Rightarrow> 'e world
                          \<Rightarrow> ((error + ByteView) \<times> 'e Group \<times> 'e world) outcome" where
  "Group_Get g key w =
     (if key = [] then Returns (Inl ''key is required'', g, w)
      else (case get (mainCache g) key of
              (c, Some v) \<Rightarrow> Returns (Inr v, g\<lparr>mainCache := c\<rparr>, w)
            | (c, None) \<Rightarrow> load (g\<lparr>mainCache := c\<rparr>) key w))"

section \<open>singleflight.go, several callers\<close>

















subsection \<open>Conditions on a group\<close>

text \<open>No call for the key is in flight in the coalescer's table.\<close>

definition idle :: "'r singleflight_Group \<Rightarrow> string \<Rightarrow> bool" where
  "idle g key = (case m g of None \<Rightarrow> True | Some tbl \<Rightarrow> tbl key = None)"

text \<open>The store of a group as \<open>add\<close> builds it: created with the capacity of the
  group, list and index in step, bytes accounted.\<close>

definition cache_ok :: "cache \<Rightarrow> bool" where
  "cache_ok c =
     (case lru c of
        None \<Rightarrow> True
      | Some l \<Rightarrow> wf_cache l \<and> nbytes l = resident_bytes Len l \<and> maxBytes l = cacheBytes c)"

section \<open>http.go\<close>

text \<open>
  The handler of the pool. Of a request it reads the method and the path; the
  response writer records the header, the status and the body. \<open>WriteHeader\<close>,
  \<open>Write\<close> and \<open>http.Error\<close> are those of \<open>net/http\<close>: the first status
  stands, \<open>Write\<close> sends 200 when no status was sent, and \<open>http.Error\<close> sets the
  content type to plain text, sends the status and writes the message followed by a
  newline (\<open>fmt.Fprintln\<close>). Logging is not modelled. Of the pool the handler
  reads \<open>basePath\<close> (and \<open>self\<close>, for the log); its table of peers is left out.
\<close>

record HTTPPool =
  self :: string
  basePath :: string

definition defaultBasePath :: string where
  "defaultBasePath = ''/_geecache/''"

definition NewHTTPPool :: "string \<Rightarrow> HTTPPool" where
  "NewHTTPPool self' = \<lparr>self = self', basePath = defaultBasePath\<rparr>"

record Request =
  Method :: string
  URL_Path :: string

record ResponseWriter =
  Header :: "string \<rightharpoonup> string"
  status :: "nat option"
  body :: string

definition WriteHeader :: "ResponseWriter \<Rightarrow> nat \<Rightarrow> ResponseWriter" where
  "WriteHeader rw code = (if status rw = None then rw\<lparr>status := Some code\<rparr> else rw)"

definition Write :: "ResponseWriter \<Rightarrow> string \<Rightarrow> ResponseWriter" where
  "Write rw bytes =
     (let rw' = (if status rw = None then WriteHeader rw 200 else rw)
      in rw'\<lparr>body := body rw' @ bytes\<rparr>)"

definition http_Error :: "ResponseWriter \<Rightarrow> string \<Rightarrow> nat \<Rightarrow> ResponseWriter" where
  "http_Error rw msg code =
     (let rw1 = rw\<lparr>Header := (Header rw)(''Content-Type'' \<mapsto> ''text/plain; charset=utf-8'',
                                          ''X-Content-Type-Options'' \<mapsto> ''nosniff'')\<rparr>;
          rw2 = WriteHeader rw1 code
      in Write rw2 (msg @ [CHR 0x0A]))"

text \<open>\<open>strings.HasPrefix\<close>, and \<open>strings.SplitN(s, "/", 2)\<close>: the text before the
  first slash and the text after it, or the whole text when it has no slash.\<close>

definition HasPrefix :: "string \<Rightarrow> string \<Rightarrow> bool" where
  "HasPrefix s p = (take (length p) s = p)"

definition SplitN2 :: "string \<Rightarrow> string list" where
  "SplitN2 s =
     (let before = takeWhile (\<lambda>c. c \<noteq> CHR ''/'') s;
          rest = dropWhile (\<lambda>c. c \<noteq> CHR ''/'') s
      in if rest = [] then [s] else [before, tl rest])"

definition ServeHTTP :: "HTTPPool \<Rightarrow> ResponseWriter \<Rightarrow> Request \<Rightarrow> 'e groups \<Rightarrow> 'e world
                          \<Rightarrow> (ResponseWriter \<times> 'e groups \<times> 'e world) outcome" where
  "ServeHTTP p rw r gs w =
     (if \<not> HasPrefix (URL_Path r) (basePath p)
      then Panics (''HTTPPool serving unexpected path: '' @ URL_Path r)
      else (let parts = SplitN2 (drop (length (basePath p)) (URL_Path r))
            in if length parts \<noteq> 2
               then Returns (http_Error rw ''bad request'' 400, gs, w)
               else (let groupName = parts ! 0;
                         key = parts ! 1
                     in case GetGroup gs groupName of
                          None \<Rightarrow> Returns (http_Error rw (''no such group: '' @ groupName) 404, gs, w)
                        | Some grp \<Rightarrow>
                            (case Group_Get grp key w of
                               Returns (Inl err, grp', w') \<Rightarrow>
                                 Returns (http_Error rw err 500, gs(groupName \<mapsto> grp'), w')
                             | Returns (Inr view, grp', w') \<Rightarrow>
                                 (let rw1 = rw\<lparr>Header := (Header rw)(''Content-Type'' \<mapsto> ''application/octet-stream'')\<rparr>;
                                      (bs, mem') = ByteSlice (heap w') view
                                  in Returns (Write rw1 (contents mem' bs), gs(groupName \<mapsto> grp'), w'\<lparr>heap := mem'\<rparr>))
                             | Panics msg \<Rightarrow> Panics msg
                             | Hangs \<Rightarrow> Hangs))))"

section \<open>Concrete data for the worked examples\<close>

text \<open>An empty memory, and the memory after \<open>[]byte("630")\<close> with the view of
  those bytes.\<close>

definition mem0 :: memory where
  "mem0 = \<lparr>cells = (\<lambda>_. []), allocated = 0\<rparr>"

definition mem_630 :: memory where
  "mem_630 = snd (bytes_of_string mem0 ''630'')"

definition view_630 :: ByteView where
  "view_630 = \<lparr>b = fst (bytes_of_string mem0 ''630'')\<rparr>"

text \<open>The scenario of the least-recently-used test: a store with room for exactly
  \<open>k1\<close> and \<open>k2\<close> with two-byte values, and an eviction callback that
  records its calls.\<close>

definition resident_keys :: "('v, 'w) Cache \<Rightarrow> string list" where
  "resident_keys c = map (\<lambda>a. entry_key (Value c a)) (ll c)"

definition has_key :: "('v, 'w) Cache \<Rightarrow> string \<Rightarrow> bool" where
  "has_key c k = (cache c k \<noteq> None)"

definition view_len :: "nat \<Rightarrow> nat \<Rightarrow> ByteView" where
  "view_len a n = \<lparr>b = \<lparr>sl_array = a, sl_off = 0, sl_len = n\<rparr>\<rparr>"

definition record_eviction :: "string \<Rightarrow> ByteView \<Rightarrow> (string \<times> ByteView) list \<Rightarrow> (string \<times> ByteView) list" where
  "record_eviction k v log = log @ [(k, v)]"

definition scenario_ops :: "ByteView op list" where
  "scenario_ops = [OpAdd ''k1'' (view_len 0 2), OpAdd ''k2'' (view_len 1 2), OpGet ''k1'']"

definition scenario_store :: "(ByteView, (string \<times> ByteView) list) Cache" where
  "scenario_store =
     New (int (length ''k1'') + Len (view_len 0 2) + int (length ''k2'') + Len (view_len 1 2))
       (Some record_eviction) []"

lemmas scenario_defs = scenario_ops_def scenario_store_def New_def Add_def Add_entry_def Add_evict.simps
      Get_def RemoveOldest_def Back_def Remove_def MoveToFront_def new_element_def Let_def
      resident_keys_def view_len_def Len_def record_eviction_def has_key_def

text \<open>A ring with a toy hash (the length of the data) and three replicas per node.\<close>

definition length_hash :: Hash where
  "length_hash s = of_nat (length s)"

definition example_ring :: ring_Map where
  "example_ring = ring_of length_hash 3 (Some length_hash) [[''ab'', ''wxyz'']]"

text \<open>The data source of the group test: a table of scores behind a getter that
  counts its calls per key in the world (\<open>loadCounts\<close>), the group \<open>scores\<close>
  with its fields set (name, getter, capacity of the store), and a peer that answers
  every request with the bytes of \<open>"630"\<close>.\<close>

definition db :: "string \<rightharpoonup> string" where
  "db = [''Tom'' \<mapsto> ''630'', ''Jack'' \<mapsto> ''589'', ''Sam'' \<mapsto> ''567'']"

definition slow_db :: "(string \<Rightarrow> nat) Getter" where
  "slow_db key w =
     (case db key of
        Some v \<Rightarrow>
          (let (s, mem') = bytes_of_string (heap w) v
           in (Inr s, w\<lparr>heap := mem', ext := (ext w)(key := Suc (ext w key))\<rparr>))
      | None \<Rightarrow> (Inl (key @ '' not exist''), w))"

definition world0 :: "(string \<Rightarrow> nat) world" where
  "world0 = \<lparr>heap = mem0, ext = (\<lambda>_. 0)\<rparr>"

definition scores :: "int \<Rightarrow> (string \<Rightarrow> nat) Group" where
  "scores cacheBytes' =
     \<lparr>name = ''scores'', getter = Some slow_db,
      mainCache = \<lparr>lru = None, cacheBytes = cacheBytes'\<rparr>,
      peers = None, loader = \<lparr>m = None\<rparr>\<rparr>"

text \<open>The group with every field but \<open>loader\<close> at its zero value.\<close>

definition zero_group :: "(string \<Rightarrow> nat) Group" where
  "zero_group =
     \<lparr>name = [], getter = None, mainCache = \<lparr>lru = None, cacheBytes = 0\<rparr>,
      peers = None, loader = \<lparr>m = None\<rparr>\<rparr>"

definition peer_630 :: "(string \<Rightarrow> nat) PeerGetter" where
  "peer_630 grp key w =
     (let (s, mem') = bytes_of_string (heap w) ''630'' in (Inr s, w\<lparr>heap := mem'\<rparr>))"

definition always_peer_630 :: "(string \<Rightarrow> nat) PeerPicker" where
  "always_peer_630 key w = Some peer_630"

text \<open>Two calls of \<open>Get\<close> in succession, and the number of times the getter of
  the test has loaded a key afterwards.\<close>

definition Get_twice :: "'e Group \<Rightarrow> string \<Rightarrow> 'e world \<Rightarrow> 'e world option" where
  "Get_twice g key w =
     (case Group_Get g key w of
        Returns (r1, g1, w1) \<Rightarrow>
          (case Group_Get g1 key w1 of
             Returns (r2, g2, w2) \<Rightarrow> Some w2
           | Panics p \<Rightarrow> None
           | Hangs \<Rightarrow> None)
      | Panics p \<Rightarrow> None
      | Hangs \<Rightarrow> None)"

definition loadCounts :: "(string \<Rightarrow> nat) world option \<Rightarrow> string \<Rightarrow> nat option" where
  "loadCounts wo key = map_option (\<lambda>w. ext w key) wo"

lemmas group_defs = Group_Get_def get_def load_def Do_def load_fn_def getLocally_def populateCache_def
  add_def cloneBytes_def make_bytes_def copy_def contents_def bytes_of_string_def Get_twice_def
  loadCounts_def scores_def slow_db_def db_def world0_def mem0_def getFromPeer_def
  peer_630_def always_peer_630_def String_def

text \<open>A response writer nothing was written to, a \<open>GET\<close> request, the registry with
  the group \<open>scores\<close>, and what a served request shows of its response.\<close>

definition new_response :: ResponseWriter where
  "new_response = \<lparr>Header = Map.empty, status = None, body = []\<rparr>"

definition GET :: "string \<Rightarrow> Request" where
  "GET path = \<lparr>Method = ''GET'', URL_Path = path\<rparr>"

definition scores_registry :: "(string \<Rightarrow> nat) groups" where
  "scores_registry = [''scores'' \<mapsto> scores 2048]"

definition served :: "(ResponseWriter \<times> 'g \<times> 'w) outcome \<Rightarrow> (nat option \<times> string option \<times> string) option" where
  "served out =
     (case out of
        Returns (rw, gs, w) \<Rightarrow> Some (status rw, Header rw ''Content-Type'', body rw)
      | Panics msg \<Rightarrow> None
      | Hangs \<Rightarrow> None)"

lemmas http_defs = ServeHTTP_def HasPrefix_def SplitN2_def http_Error_def Write_def WriteHeader_def
  NewHTTPPool_def defaultBasePath_def GetGroup_def new_response_def GET_def scores_registry_def
  served_def ByteSlice_def





section \<open>Properties of the value view\<close>

lemma cloneBytes_fresh:
  "cloneBytes mem bs = (s, mem1) \<Longrightarrow>
     s = \<lparr>sl_array = allocated mem, sl_off = 0, sl_len = sl_len bs\<rparr> \<and> allocated mem1 = Suc (allocated mem)"
  by (auto simp: cloneBytes_def make_bytes_def copy_def Let_def split: if_splits)

lemma cloneBytes_cells:
  assumes "cloneBytes mem bs = (s, mem1)" "in_bounds mem bs"
  shows "cells mem1 = (cells mem)(allocated mem := contents mem bs)"
proof (cases "sl_len bs = 0")
  case True
  then show ?thesis using assms
    by (auto simp: cloneBytes_def make_bytes_def copy_def Let_def contents_def)
next
  case False
  with assms(2) have lt: "sl_array bs < allocated mem"
    and le: "sl_off bs + sl_len bs \<le> length (cells mem (sl_array bs))"
    by (auto simp: in_bounds_def)
  have len: "length (contents mem bs) = sl_len bs" using le by (simp add: contents_def)
  have same: "contents (mem\<lparr>cells := (cells mem)(allocated mem := replicate (sl_len bs) (CHR 0x00)),
          allocated := Suc (allocated mem)\<rparr>) bs = contents mem bs"
    using lt by (simp add: contents_def)
  show ?thesis using assms(1) False len
    by (auto simp: cloneBytes_def make_bytes_def copy_def Let_def same)
qed

text \<open>
  C10. For a view whose slice lies inside its array, \<open>ByteSlice\<close> returns a slice
  over a freshly allocated array (an address no earlier slice can have) that holds the
  view's bytes. Writing a byte through the returned slice changes the returned slice
  only: the view reads as before, and a later \<open>ByteSlice\<close> of the same view
  gives the original bytes again.
\<close>

theorem ByteSlice_defensive_copy:
  assumes "in_bounds mem (b v)" and "ByteSlice mem v = (s, mem1)"
    and "store_byte mem1 s i x = Some mem2"
  shows "contents mem1 s = String mem v
       \<and> sl_array s = allocated mem \<and> sl_array (b v) < allocated mem
       \<and> contents mem2 s = (String mem v)[i := x]
       \<and> String mem2 v = String mem v
       \<and> contents (snd (ByteSlice mem2 v)) (fst (ByteSlice mem2 v)) = String mem v"
proof -
  from assms(2) have cb: "cloneBytes mem (b v) = (s, mem1)" by (simp add: ByteSlice_def)
  note fr = cloneBytes_fresh[OF cb]
  note ce = cloneBytes_cells[OF cb assms(1)]
  from assms(3) have i: "i < sl_len s"
    and m2: "mem2 = mem1\<lparr>cells := (cells mem1)(sl_array s := (cells mem1 (sl_array s))[sl_off s + i := x])\<rparr>"
    by (auto simp: store_byte_def split: if_splits)
  from i fr have pos: "0 < sl_len (b v)" by simp
  with assms(1) have lt: "sl_array (b v) < allocated mem"
    and le: "sl_off (b v) + sl_len (b v) \<le> length (cells mem (sl_array (b v)))"
    by (auto simp: in_bounds_def)
  have len: "length (contents mem (b v)) = sl_len (b v)" using le by (simp add: contents_def)
  have 1: "contents mem1 s = String mem v"
    using fr len by (simp add: contents_def ce String_def)
  have 2: "contents mem2 s = (String mem v)[i := x]"
    using fr len by (simp add: m2 contents_def ce String_def)
  have c2: "cells mem2 (sl_array (b v)) = cells mem (sl_array (b v))"
    using fr lt by (simp add: m2 ce)
  have 3: "String mem2 v = String mem v"
    by (simp add: String_def contents_def c2)
  have ib: "in_bounds mem2 (b v)"
    using lt le fr by (simp add: in_bounds_def c2) (simp add: m2)
  obtain s' mem3 where cb': "cloneBytes mem2 (b v) = (s', mem3)" by (cases "cloneBytes mem2 (b v)")
  have "contents mem3 s' = contents mem2 (b v)"
    using cloneBytes_fresh[OF cb'] cloneBytes_cells[OF cb' ib] ib pos
    by (simp add: contents_def in_bounds_def)
  then have 4: "contents (snd (ByteSlice mem2 v)) (fst (ByteSlice mem2 v)) = String mem v"
    using 3 by (simp add: ByteSlice_def cb' String_def)
  show ?thesis using 1 2 3 4 fr lt by simp
qed

theorem ByteSlice_defensive_copy_witness:
  "in_bounds mem_630 (b view_630)
   \<and> store_byte (snd (ByteSlice mem_630 view_630)) (fst (ByteSlice mem_630 view_630)) 0 (CHR ''9'')
       = Some (mem_630\<lparr>cells := (cells mem_630)(1 := ''930''), allocated := 2\<rparr>)
   \<and> String (mem_630\<lparr>cells := (cells mem_630)(1 := ''930''), allocated := 2\<rparr>) view_630 = ''630''
   \<and> contents (mem_630\<lparr>cells := (cells mem_630)(1 := ''930''), allocated := 2\<rparr>) (fst (ByteSlice mem_630 view_630)) = ''930''"
proof -
  have h1: "in_bounds mem_630 (b view_630)"
    by (simp add: in_bounds_def mem_630_def view_630_def bytes_of_string_def mem0_def)
  have h2: "ByteSlice mem_630 view_630 = (fst (ByteSlice mem_630 view_630), snd (ByteSlice mem_630 view_630))"
    by simp
  have h3: "store_byte (snd (ByteSlice mem_630 view_630)) (fst (ByteSlice mem_630 view_630)) 0 (CHR ''9'')
       = Some (mem_630\<lparr>cells := (cells mem_630)(1 := ''930''), allocated := 2\<rparr>)"
    by (simp add: store_byte_def ByteSlice_def cloneBytes_def make_bytes_def copy_def Let_def contents_def
        mem_630_def view_630_def bytes_of_string_def mem0_def)
  have s: "String mem_630 view_630 = ''630''"
    by (simp add: String_def contents_def mem_630_def view_630_def bytes_of_string_def mem0_def)
  from ByteSlice_defensive_copy[OF h1 h2 h3] h1 h3 s show ?thesis by simp
qed

section \<open>Properties of the bounded store\<close>

lemma fold_max_ge: "x \<in> set l \<Longrightarrow> x \<le> fold max l (n::nat)"
proof (induction l arbitrary: n)
  case Nil then show ?case by simp
next
  case (Cons y l)
  have mono: "\<And>cnt. cnt \<le> fold max l (cnt::nat)"
  proof -
    fix cnt show "cnt \<le> fold max l (cnt::nat)"
      by (induction l arbitrary: cnt) (auto intro: order_trans[OF max.cobounded2])
  qed
  from Cons show ?case
  proof (cases "x = y")
    case True
    have "y \<le> max y n" by simp
    also have "\<dots> \<le> fold max l (max y n)" by (rule mono)
    finally show ?thesis using True by simp
  next
    case False
    with Cons show ?thesis by simp
  qed
qed

lemma new_element_fresh: "new_element l \<notin> set l"
  unfolding new_element_def using fold_max_ge[of "Suc (fold max l 0)" l 0] by auto

lemma remove1_last: "distinct l \<Longrightarrow> l \<noteq> [] \<Longrightarrow> remove1 (last l) l = butlast l"
  by (induction l) (auto)

lemma wf_New: "wf_cache (New mb cb w)"
  by (simp add: wf_cache_def New_def)

lemma bytes_New: "resident_bytes vlen (New mb cb w) = 0" "nbytes (New mb cb w) = 0"
  by (simp_all add: resident_bytes_def New_def)

lemma wf_Get: "wf_cache c \<Longrightarrow> wf_cache (fst (Get c k))"
  by (auto simp: wf_cache_def Get_def MoveToFront_def split: option.splits)



lemma RemoveOldest_empty: "ll c = [] \<Longrightarrow> RemoveOldest vlen c = c"
  by (simp add: RemoveOldest_def Back_def)

lemma RemoveOldest_fields:
  assumes "wf_cache c" "ll c \<noteq> []"
  shows "ll (RemoveOldest vlen c) = butlast (ll c)"
    and "cache (RemoveOldest vlen c) = (cache c)(entry_key (Value c (last (ll c))) := None)"
    and "nbytes (RemoveOldest vlen c) = nbytes c - entry_size vlen (Value c (last (ll c)))"
  using assms
  by (auto simp: RemoveOldest_def Back_def Remove_def Let_def wf_cache_def remove1_last entry_size_def
      split: option.splits)

lemma RemoveOldest_same:
  "Value (RemoveOldest vlen c) = Value c" "maxBytes (RemoveOldest vlen c) = maxBytes c"
  "OnEvicted (RemoveOldest vlen c) = OnEvicted c"
  by (auto simp: RemoveOldest_def Let_def split: option.splits)

lemma wf_RemoveOldest: assumes "wf_cache c" shows "wf_cache (RemoveOldest vlen c)"
proof (cases "ll c = []")
  case True then show ?thesis using assms by (simp add: RemoveOldest_empty)
next
  case False
  note f = RemoveOldest_fields[OF assms False] RemoveOldest_same[of vlen c]
  have d: "distinct (ll c)" using assms by (simp add: wf_cache_def)
  have nl: "last (ll c) \<notin> set (butlast (ll c))"
    using d False by (metis append_butlast_last_id distinct_append not_distinct_conv_prefix distinct.simps(2) disjoint_iff list.set_intros(1))
  show ?thesis
    unfolding wf_cache_def f
  proof (intro conjI allI impI ballI)
    show "distinct (butlast (ll c))" using d by (rule distinct_butlast)
  next
    fix k a assume h: "((cache c)(entry_key (Value c (last (ll c))) := None)) k = Some a"
    then have k: "k \<noteq> entry_key (Value c (last (ll c)))" and ck: "cache c k = Some a"
      by (auto split: if_splits)
    from ck assms have a: "a \<in> set (ll c)" "entry_key (Value c a) = k" by (auto simp: wf_cache_def)
    with k have "a \<noteq> last (ll c)" by auto
    with a False show "a \<in> set (butlast (ll c))"
      by (metis append_butlast_last_id in_set_conv_decomp_first rotate1.simps(2) set_ConsD set_rotate1)
    show "entry_key (Value c a) = k" by fact
  next
    fix a assume a: "a \<in> set (butlast (ll c))"
    then have a': "a \<in> set (ll c)" by (rule in_set_butlastD)
    then have ca: "cache c (entry_key (Value c a)) = Some a" using assms by (auto simp: wf_cache_def)
    have "a \<noteq> last (ll c)" using a nl by auto
    moreover have "cache c (entry_key (Value c (last (ll c)))) = Some (last (ll c))"
      using assms False by (auto simp: wf_cache_def)
    ultimately have "entry_key (Value c a) \<noteq> entry_key (Value c (last (ll c)))" using ca by auto
    then show "((cache c)(entry_key (Value c (last (ll c))) := None)) (entry_key (Value c a)) = Some a"
      using ca by simp
  qed
qed

lemma bytes_RemoveOldest:
  assumes "wf_cache c" "nbytes c = resident_bytes vlen c"
  shows "nbytes (RemoveOldest vlen c) = resident_bytes vlen (RemoveOldest vlen c)"
proof (cases "ll c = []")
  case True then show ?thesis using assms by (simp add: RemoveOldest_empty)
next
  case False
  note f = RemoveOldest_fields[OF assms(1) False] RemoveOldest_same[of vlen c]
  have "ll c = butlast (ll c) @ [last (ll c)]" using False by simp
  then have "resident_bytes vlen c = sum_list (map (\<lambda>a. entry_size vlen (Value c a)) (butlast (ll c))) + entry_size vlen (Value c (last (ll c)))"
    unfolding resident_bytes_def by (metis (no_types, lifting) list.simps(8,9) map_append sum_list.Cons sum_list.Nil sum_list.append add.right_neutral)
  then show ?thesis using assms(2) by (simp add: f resident_bytes_def)
qed

lemma wf_cacheD:
  "wf_cache c \<Longrightarrow> distinct (ll c)"
  "wf_cache c \<Longrightarrow> cache c k = Some a \<Longrightarrow> a \<in> set (ll c)"
  "wf_cache c \<Longrightarrow> cache c k = Some a \<Longrightarrow> entry_key (Value c a) = k"
  "wf_cache c \<Longrightarrow> a \<in> set (ll c) \<Longrightarrow> cache c (entry_key (Value c a)) = Some a"
  unfolding wf_cache_def by blast+

lemma Add_entry_dom: "dom (cache (Add_entry vlen c k v)) = insert k (dom (cache c))"
  by (auto simp: Add_entry_def Let_def split: option.splits)

lemma Add_entry_same: "maxBytes (Add_entry vlen c k v) = maxBytes c" "OnEvicted (Add_entry vlen c k v) = OnEvicted c"
  by (auto simp: Add_entry_def Let_def split: option.splits)

lemma Add_entry_None:
  assumes "cache c k = None"
  shows "ll (Add_entry vlen c k v) = new_element (ll c) # ll c"
    and "Value (Add_entry vlen c k v) = (Value c)(new_element (ll c) := \<lparr>entry_key = k, entry_value = v\<rparr>)"
    and "cache (Add_entry vlen c k v) = (cache c)(k \<mapsto> new_element (ll c))"
    and "nbytes (Add_entry vlen c k v) = nbytes c + (int (length k) + vlen v)"
  using assms by (simp_all add: Add_entry_def Let_def)

lemma Add_entry_Some:
  assumes "cache c k = Some ele"
  shows "ll (Add_entry vlen c k v) = MoveToFront (ll c) ele"
    and "Value (Add_entry vlen c k v) = (Value c)(ele := (Value c ele)\<lparr>entry_value := v\<rparr>)"
    and "cache (Add_entry vlen c k v) = cache c"
    and "nbytes (Add_entry vlen c k v) = nbytes c + (vlen v - vlen (entry_value (Value c ele)))"
  using assms by (simp_all add: Add_entry_def Let_def)

lemma wf_Add_entry: assumes "wf_cache c" shows "wf_cache (Add_entry vlen c k v)"
proof (cases "cache c k")
  case None
  note f = Add_entry_None[OF None]
  have fr: "new_element (ll c) \<notin> set (ll c)" by (rule new_element_fresh)
  have nk: "entry_key (Value c a) \<noteq> k" if "a \<in> set (ll c)" for a
    using wf_cacheD(4)[OF assms that] None by auto
  have d: "distinct (ll c)" using assms by (rule wf_cacheD)
  have cnt: "a \<in> set (ll c) \<and> entry_key (Value c a) = k'" if "cache c k' = Some a" for k' a
    using wf_cacheD(2,3)[OF assms that] by simp
  have l: "cache c (entry_key (Value c a)) = Some a" if "a \<in> set (ll c)" for a
    using wf_cacheD(4)[OF assms that] .
  show ?thesis unfolding wf_cache_def f
  proof (intro conjI allI impI ballI)
    show "distinct (new_element (ll c) # ll c)" using d fr by simp
  next
    fix k' a assume h: "((cache c)(k \<mapsto> new_element (ll c))) k' = Some a"
    show "a \<in> set (new_element (ll c) # ll c)"
      using h cnt by (cases "k' = k") auto
    show "entry_key (((Value c)(new_element (ll c) := \<lparr>entry_key = k, entry_value = v\<rparr>)) a) = k'"
      using h cnt fr by (cases "k' = k") auto
  next
    fix a assume "a \<in> set (new_element (ll c) # ll c)"
    then show "((cache c)(k \<mapsto> new_element (ll c))) (entry_key (((Value c)(new_element (ll c) := \<lparr>entry_key = k, entry_value = v\<rparr>)) a)) = Some a"
      using l nk fr by (cases "a = new_element (ll c)") auto
  qed
next
  case (Some ele)
  note f = Add_entry_Some[OF Some]
  have e: "ele \<in> set (ll c)" "entry_key (Value c ele) = k" using wf_cacheD(2,3)[OF assms Some] by simp_all
  have d: "distinct (ll c)" using assms by (rule wf_cacheD)
  have cnt: "a \<in> set (ll c) \<and> entry_key (Value c a) = k'" if "cache c k' = Some a" for k' a
    using wf_cacheD(2,3)[OF assms that] by simp
  have l: "cache c (entry_key (Value c a)) = Some a" if "a \<in> set (ll c)" for a
    using wf_cacheD(4)[OF assms that] .
  have s: "set (MoveToFront (ll c) ele) = set (ll c)" using e(1) d by (auto simp: MoveToFront_def)
  have ek: "\<And>a. entry_key (((Value c)(ele := (Value c ele)\<lparr>entry_value := v\<rparr>)) a) = entry_key (Value c a)"
    by simp
  show ?thesis unfolding wf_cache_def f ek s
  proof (intro conjI allI impI ballI)
    show "distinct (MoveToFront (ll c) ele)" using d e(1) by (simp add: MoveToFront_def)
  next
    fix k' a assume h: "cache c k' = Some a"
    show "a \<in> set (ll c)" "entry_key (Value c a) = k'" using cnt[OF h] by simp_all
  next
    fix a assume "a \<in> set (ll c)"
    then show "cache c (entry_key (Value c a)) = Some a" by (rule l)
  qed
qed

lemma sum_fun_upd_notin:
  "a \<notin> set l \<Longrightarrow> sum_list (map (\<lambda>x. (g::'a \<Rightarrow> int) ((f(a := v)) x)) l) = sum_list (map (\<lambda>x. g (f x)) l)"
  by (induction l) auto

lemma bytes_Add_entry:
  assumes "wf_cache c" "nbytes c = resident_bytes vlen c"
  shows "nbytes (Add_entry vlen c k v) = resident_bytes vlen (Add_entry vlen c k v)"
proof (cases "cache c k")
  case None
  note f = Add_entry_None[OF None]
  have fr: "new_element (ll c) \<notin> set (ll c)" by (rule new_element_fresh)
  have "resident_bytes vlen (Add_entry vlen c k v) = entry_size vlen \<lparr>entry_key = k, entry_value = v\<rparr> + resident_bytes vlen c"
    unfolding resident_bytes_def f by (simp add: sum_fun_upd_notin[OF fr] fun_upd_same del: fun_upd_apply)
  then show ?thesis using assms(2) by (simp add: f entry_size_def)
next
  case (Some ele)
  note f = Add_entry_Some[OF Some]
  have e: "ele \<in> set (ll c)" "entry_key (Value c ele) = k" using wf_cacheD(2,3)[OF assms(1) Some] by simp_all
  have d: "distinct (ll c)" using assms(1) by (rule wf_cacheD)
  have nin: "ele \<notin> set (remove1 ele (ll c))" using d by simp
  have 1: "resident_bytes vlen c
     = entry_size vlen (Value c ele) + sum_list (map (\<lambda>a. entry_size vlen (Value c a)) (remove1 ele (ll c)))"
    unfolding resident_bytes_def using e(1) by (simp add: sum_list_map_remove1)
  have 2: "resident_bytes vlen (Add_entry vlen c k v)
     = entry_size vlen ((Value c ele)\<lparr>entry_value := v\<rparr>) + sum_list (map (\<lambda>a. entry_size vlen (Value c a)) (remove1 ele (ll c)))"
    unfolding resident_bytes_def f using e(1)
    by (simp add: MoveToFront_def sum_fun_upd_notin[OF nin] fun_upd_same del: fun_upd_apply)
  show ?thesis using assms(2) 1 2 by (simp add: f entry_size_def)
qed

lemma Add_evict_Some:
  assumes "Add_evict vlen (c :: ('v, 'w) Cache) = Some c'"
  shows "(\<exists>n. c' = (RemoveOldest vlen ^^ n) c) \<and> \<not> (maxBytes c' \<noteq> 0 \<and> maxBytes c' < nbytes c')"
proof (rule Add_evict.raw_induct[where P = "\<lambda>vl c c'. (\<exists>n. c' = (RemoveOldest vl ^^ n) c) \<and> \<not> (maxBytes c' \<noteq> 0 \<and> maxBytes c' < nbytes c')", OF _ assms])
  fix evict :: "('v \<Rightarrow> int) \<Rightarrow> ('v, 'w) Cache \<Rightarrow> ('v, 'w) Cache option" and vl c c'
  assume IH: "\<And>vl x y. evict vl x = Some y \<Longrightarrow> (\<exists>n. y = (RemoveOldest vl ^^ n) x) \<and> \<not> (maxBytes y \<noteq> 0 \<and> maxBytes y < nbytes y)"
    and eq: "(if maxBytes c \<noteq> 0 \<and> maxBytes c < nbytes c then evict vl (RemoveOldest vl c) else Some c) = Some c'"
  show "(\<exists>n. c' = (RemoveOldest vl ^^ n) c) \<and> \<not> (maxBytes c' \<noteq> 0 \<and> maxBytes c' < nbytes c')"
  proof (cases "maxBytes c \<noteq> 0 \<and> maxBytes c < nbytes c")
    case True
    with eq have "evict vl (RemoveOldest vl c) = Some c'" by simp
    from IH[OF this] obtain n where "c' = (RemoveOldest vl ^^ n) (RemoveOldest vl c)"
      and r: "\<not> (maxBytes c' \<noteq> 0 \<and> maxBytes c' < nbytes c')" by blast
    then have "c' = (RemoveOldest vl ^^ Suc n) c" by (simp add: funpow_swap1)
    with r show ?thesis by blast
  next
    case False
    with eq have e: "c' = c" by simp
    then have "c' = (RemoveOldest vl ^^ 0) c" by simp
    with False e show ?thesis by blast
  qed
qed


lemma Add_evict_diverges:
  assumes "ll c = []" "maxBytes c \<noteq> 0" "maxBytes c < nbytes c"
  shows "Add_evict vlen (c :: ('v, 'w) Cache) = None"
proof (rule ccontr)
  assume "Add_evict vlen c \<noteq> None"
  then obtain c' where s: "Add_evict vlen c = Some c'" by auto
  have "\<not> (ll c = [] \<and> maxBytes c \<noteq> 0 \<and> maxBytes c < nbytes c)"
  proof (rule Add_evict.raw_induct[where P = "\<lambda>vl c c'. \<not> (ll c = [] \<and> maxBytes c \<noteq> 0 \<and> maxBytes c < nbytes c)", OF _ s])
    fix evict :: "('v \<Rightarrow> int) \<Rightarrow> ('v, 'w) Cache \<Rightarrow> ('v, 'w) Cache option" and vl c c'
    assume IH: "\<And>vl x y. evict vl x = Some y \<Longrightarrow> \<not> (ll x = [] \<and> maxBytes x \<noteq> 0 \<and> maxBytes x < nbytes x)"
      and eq: "(if maxBytes c \<noteq> 0 \<and> maxBytes c < nbytes c then evict vl (RemoveOldest vl c) else Some c) = Some c'"
    show "\<not> (ll c = [] \<and> maxBytes c \<noteq> 0 \<and> maxBytes c < nbytes c)"
    proof
      assume a: "ll c = [] \<and> maxBytes c \<noteq> 0 \<and> maxBytes c < nbytes c"
      then have "RemoveOldest vl c = c" by (simp add: RemoveOldest_empty)
      with a eq have "evict vl c = Some c'" by simp
      from IH[OF this] a show False by simp
    qed
  qed
  with assms show False by simp
qed


lemma entry_size_nonneg: "\<forall>v. 0 \<le> vlen v \<Longrightarrow> 0 \<le> entry_size vlen e"
  by (simp add: entry_size_def)







lemma recency_orderedD:
  "recency_ordered n t c \<Longrightarrow> wf_cache c"
  "recency_ordered n t c \<Longrightarrow> sorted_wrt (\<lambda>a a'. t (entry_key (Value c a')) < t (entry_key (Value c a))) (ll c)"
  "recency_ordered n t c \<Longrightarrow> a \<in> set (ll c) \<Longrightarrow> t (entry_key (Value c a)) \<le> n"
  unfolding recency_ordered_def by blast+

lemma recency_orderedI:
  "wf_cache c \<Longrightarrow> sorted_wrt (\<lambda>a a'. t (entry_key (Value c a')) < t (entry_key (Value c a))) (ll c)
   \<Longrightarrow> (\<And>a. a \<in> set (ll c) \<Longrightarrow> t (entry_key (Value c a)) \<le> n) \<Longrightarrow> recency_ordered n t c"
  unfolding recency_ordered_def by blast

lemma recency_New: "recency_ordered 0 (\<lambda>_. 0) (New mb cb w)"
  by (rule recency_orderedI[OF wf_New]) (simp_all add: New_def)

lemma recency_RemoveOldest:
  assumes "recency_ordered n t c" shows "recency_ordered n t (RemoveOldest vlen c)"
proof (cases "ll c = []")
  case True then show ?thesis using assms by (simp add: RemoveOldest_empty)
next
  case False
  note wf = recency_orderedD(1)[OF assms]
  note f = RemoveOldest_fields(1)[OF wf False] RemoveOldest_same(1)[of vlen c]
  show ?thesis
  proof (rule recency_orderedI[OF wf_RemoveOldest[OF wf]])
    show "sorted_wrt (\<lambda>a a'. t (entry_key (Value (RemoveOldest vlen c) a')) < t (entry_key (Value (RemoveOldest vlen c) a))) (ll (RemoveOldest vlen c))"
      unfolding f butlast_conv_take by (rule sorted_wrt_take[OF recency_orderedD(2)[OF assms]])
  next
    fix a assume "a \<in> set (ll (RemoveOldest vlen c))"
    then have "a \<in> set (ll c)" unfolding f by (rule in_set_butlastD)
    then show "t (entry_key (Value (RemoveOldest vlen c) a)) \<le> n"
      unfolding f by (rule recency_orderedD(3)[OF assms])
  qed
qed

text \<open>Promoting the element of key k to the front, at a new time.\<close>

lemma recency_promote:
  assumes ro: "recency_ordered n t c" and hit: "cache c k = Some ele"
    and l': "ll c' = MoveToFront (ll c) ele" and wf': "wf_cache c'"
    and keys: "\<And>a. entry_key (Value c' a) = entry_key (Value c a)"
  shows "recency_ordered (Suc n) (t(k := Suc n)) c'"
proof (rule recency_orderedI[OF wf'])
  note wf = recency_orderedD(1)[OF ro]
  have e: "ele \<in> set (ll c)" "entry_key (Value c ele) = k" using wf_cacheD(2,3)[OF wf hit] by simp_all
  have d: "distinct (ll c)" using wf by (rule wf_cacheD)
  have ll': "ll c' = ele # filter (\<lambda>y. ele \<noteq> y) (ll c)"
    using e(1) d by (simp add: l' MoveToFront_def distinct_remove1_removeAll removeAll_filter_not_eq)
  have other: "entry_key (Value c a) \<noteq> k" if "a \<in> set (ll c)" "a \<noteq> ele" for a
  proof
    assume "entry_key (Value c a) = k"
    with wf_cacheD(4)[OF wf that(1)] hit that(2) show False by simp
  qed
  have old: "sorted_wrt (\<lambda>a a'. t (entry_key (Value c a')) < t (entry_key (Value c a))) (filter (\<lambda>y. ele \<noteq> y) (ll c))"
    by (rule sorted_wrt_filter[OF recency_orderedD(2)[OF ro]])
  have new: "sorted_wrt (\<lambda>a a'. (t(k := Suc n)) (entry_key (Value c a')) < (t(k := Suc n)) (entry_key (Value c a))) (filter (\<lambda>y. ele \<noteq> y) (ll c))"
    by (rule sorted_wrt_mono_rel[OF _ old]) (use other in auto)
  have below: "(t(k := Suc n)) (entry_key (Value c a)) < (t(k := Suc n)) (entry_key (Value c ele))"
    if "a \<in> set (filter (\<lambda>y. ele \<noteq> y) (ll c))" for a
  proof -
    from that have a: "a \<in> set (ll c)" "a \<noteq> ele" by auto
    from recency_orderedD(3)[OF ro a(1)] other[OF a] e(2) show ?thesis by simp
  qed
  show "sorted_wrt (\<lambda>a a'. (t(k := Suc n)) (entry_key (Value c' a')) < (t(k := Suc n)) (entry_key (Value c' a))) (ll c')"
    unfolding keys ll' using new below by simp
  fix a assume "a \<in> set (ll c')"
  then have a: "a \<in> set (ll c)" unfolding ll' using e(1) by auto
  show "(t(k := Suc n)) (entry_key (Value c' a)) \<le> Suc n"
    unfolding keys using recency_orderedD(3)[OF ro a] by simp
qed

lemma recency_miss:
  assumes ro: "recency_ordered n t c" and miss: "cache c k = None"
  shows "recency_ordered (Suc n) (t(k := Suc n)) c"
proof (rule recency_orderedI[OF recency_orderedD(1)[OF ro]])
  note wf = recency_orderedD(1)[OF ro]
  have other: "entry_key (Value c a) \<noteq> k" if "a \<in> set (ll c)" for a
    using wf_cacheD(4)[OF wf that] miss by auto
  show "sorted_wrt (\<lambda>a a'. (t(k := Suc n)) (entry_key (Value c a')) < (t(k := Suc n)) (entry_key (Value c a))) (ll c)"
    by (rule sorted_wrt_mono_rel[OF _ recency_orderedD(2)[OF ro]]) (use other in auto)
  fix a assume a: "a \<in> set (ll c)"
  show "(t(k := Suc n)) (entry_key (Value c a)) \<le> Suc n"
    using recency_orderedD(3)[OF ro a] other[OF a] by simp
qed

lemma recency_Get:
  assumes ro: "recency_ordered n t c"
  shows "recency_ordered (Suc n) (t(k := Suc n)) (fst (Get c k))"
proof (cases "cache c k")
  case None
  then have "fst (Get c k) = c" by (simp add: Get_def)
  with recency_miss[OF ro None] show ?thesis by simp
next
  case (Some ele)
  show ?thesis
    by (rule recency_promote[OF ro Some _ wf_Get[OF recency_orderedD(1)[OF ro]]])
       (simp_all add: Get_def Some)
qed

lemma recency_Add_entry:
  assumes ro: "recency_ordered n t c"
  shows "recency_ordered (Suc n) (t(k := Suc n)) (Add_entry vlen c k v)"
proof (cases "cache c k")
  case (Some ele)
  show ?thesis
    by (rule recency_promote[OF ro Some _ wf_Add_entry[OF recency_orderedD(1)[OF ro]]])
       (simp_all add: Add_entry_Some[OF Some])
next
  case None
  note wf = recency_orderedD(1)[OF ro]
  note f = Add_entry_None[OF None]
  have fr: "new_element (ll c) \<notin> set (ll c)" by (rule new_element_fresh)
  have other: "entry_key (Value c a) \<noteq> k" if "a \<in> set (ll c)" for a
    using wf_cacheD(4)[OF wf that] None by auto
  let ?V = "(Value c)(new_element (ll c) := \<lparr>entry_key = k, entry_value = v\<rparr>)"
  have same: "entry_key (?V a) = entry_key (Value c a)" if "a \<in> set (ll c)" for a
    using that fr by auto
  show ?thesis
  proof (rule recency_orderedI[OF wf_Add_entry[OF wf]])
    have tail: "sorted_wrt (\<lambda>a a'. (t(k := Suc n)) (entry_key (?V a')) < (t(k := Suc n)) (entry_key (?V a))) (ll c)"
      by (rule sorted_wrt_mono_rel[OF _ recency_orderedD(2)[OF ro]]) (use other same in auto)
    have head: "(t(k := Suc n)) (entry_key (?V a)) < (t(k := Suc n)) (entry_key (?V (new_element (ll c))))"
      if "a \<in> set (ll c)" for a
      using recency_orderedD(3)[OF ro that] other[OF that] same[OF that] by simp
    show "sorted_wrt (\<lambda>a a'. (t(k := Suc n)) (entry_key (Value (Add_entry vlen c k v) a')) < (t(k := Suc n)) (entry_key (Value (Add_entry vlen c k v) a))) (ll (Add_entry vlen c k v))"
      unfolding f using tail head by simp
    fix a assume "a \<in> set (ll (Add_entry vlen c k v))"
    then have "a = new_element (ll c) \<or> a \<in> set (ll c)" unfolding f by simp
    then show "(t(k := Suc n)) (entry_key (Value (Add_entry vlen c k v) a)) \<le> Suc n"
    proof
      assume "a = new_element (ll c)"
      then show ?thesis unfolding f by simp
    next
      assume a: "a \<in> set (ll c)"
      have "t (entry_key (Value c a)) \<le> Suc n" using recency_orderedD(3)[OF ro a] by simp
      then show ?thesis unfolding f using other[OF a] same[OF a] by simp
    qed
  qed
qed

lemma recency_funpow:
  "recency_ordered n t c \<Longrightarrow> recency_ordered n t ((RemoveOldest vlen ^^ cnt) c)"
  by (induction cnt) (simp_all add: recency_RemoveOldest)

lemma dom_RemoveOldest_subset: "dom (cache (RemoveOldest vlen c)) \<subseteq> dom (cache c)"
  by (auto simp: RemoveOldest_def Let_def split: option.splits if_splits)

lemma dom_funpow_subset: "dom (cache ((RemoveOldest vlen ^^ cnt) c)) \<subseteq> dom (cache c)"
proof (induction cnt)
  case 0 show ?case by simp
next
  case (Suc cnt)
  have "dom (cache ((RemoveOldest vlen ^^ Suc cnt) c)) \<subseteq> dom (cache ((RemoveOldest vlen ^^ cnt) c))"
    by (simp add: dom_RemoveOldest_subset)
  with Suc show ?case by blast
qed

lemma evicted_older:
  assumes "recency_ordered n t c" "e \<in> dom (cache c)"
    "e \<notin> dom (cache ((RemoveOldest vlen ^^ cnt) c))" "r \<in> dom (cache ((RemoveOldest vlen ^^ cnt) c))"
  shows "t e < t r"
  using assms
proof (induction cnt arbitrary: c)
  case 0 then show ?case by simp
next
  case (Suc cnt)
  have sw: "(RemoveOldest vlen ^^ Suc cnt) c = (RemoveOldest vlen ^^ cnt) (RemoveOldest vlen c)" by (simp add: funpow_swap1)
  note wf = recency_orderedD(1)[OF Suc.prems(1)]
  show ?case
  proof (cases "e \<in> dom (cache (RemoveOldest vlen c))")
    case True
    show ?thesis
      by (rule Suc.IH[OF recency_RemoveOldest[OF Suc.prems(1)] True])
         (use Suc.prems(3,4) sw in simp_all)
  next
    case False
    with Suc.prems(2) have ne: "ll c \<noteq> []" by (auto simp: RemoveOldest_empty)
    note f = RemoveOldest_fields(1,2)[OF wf ne] RemoveOldest_same(1)[of vlen c]
    from False Suc.prems(2) have e: "e = entry_key (Value c (last (ll c)))"
      unfolding f by (auto split: if_splits)
    from Suc.prems(4) dom_funpow_subset[where cnt = cnt and c = "RemoveOldest vlen c" and vlen = vlen] sw
    have "r \<in> dom (cache (RemoveOldest vlen c))" by auto
    then obtain a where a: "cache (RemoveOldest vlen c) r = Some a" by auto
    from wf_cacheD(2,3)[OF wf_RemoveOldest[OF wf] a]
    have ain: "a \<in> set (butlast (ll c))" and ak: "entry_key (Value c a) = r" unfolding f by simp_all
    have "sorted_wrt (\<lambda>a a'. t (entry_key (Value c a')) < t (entry_key (Value c a))) (butlast (ll c) @ [last (ll c)])"
      using recency_orderedD(2)[OF Suc.prems(1)] ne by simp
    then have "t (entry_key (Value c (last (ll c)))) < t (entry_key (Value c a))"
      unfolding sorted_wrt_append using ain by simp
    then show ?thesis using e ak by simp
  qed
qed

lemma stamp_append: "stamp n (xs @ ys) t = stamp (n + length xs) ys (stamp n xs t)"
  by (induction xs arbitrary: n t) simp_all

lemma last_touch_snoc: "last_touch (ops @ [x]) = touch x (Suc (length ops)) (last_touch ops)"
  by (simp add: last_touch_def stamp_append)

lemma recency_step:
  assumes "recency_ordered n t c" "step_op vlen x c = Some c'"
  shows "recency_ordered (Suc n) (touch x (Suc n) t) c'"
proof (cases x)
  case (OpGet k)
  with assms(2) recency_Get[OF assms(1), of k] show ?thesis by (auto simp: touch_def)
next
  case OpRemoveOldest
  from recency_RemoveOldest[OF assms(1)] assms(2) show ?thesis
    by (auto simp: OpRemoveOldest touch_def recency_ordered_def intro: le_SucI)
next
  case (OpAdd k v)
  with assms(2) have "Add_evict vlen (Add_entry vlen c k v) = Some c'" by (simp add: Add_def)
  from Add_evict_Some[OF this] obtain cnt where "c' = (RemoveOldest vlen ^^ cnt) (Add_entry vlen c k v)" by blast
  with recency_funpow[OF recency_Add_entry[OF assms(1), where k = k and vlen = vlen and v = v], where cnt = cnt] show ?thesis
    by (simp add: OpAdd touch_def)
qed

lemma recency_run:
  "recency_ordered n t c \<Longrightarrow> run_ops vlen ops c = Some c' \<Longrightarrow>
     recency_ordered (n + length ops) (stamp n ops t) c'"
proof (induction ops arbitrary: n t c)
  case Nil then show ?case by simp
next
  case (Cons x xs)
  from Cons.prems(2) obtain c1 where s: "step_op vlen x c = Some c1" and r: "run_ops vlen xs c1 = Some c'"
    by (auto split: option.splits)
  from Cons.IH[OF recency_step[OF Cons.prems(1) s] r] show ?case by simp
qed

lemma resident_bytes_nonneg: "\<forall>v. 0 \<le> vlen v \<Longrightarrow> 0 \<le> resident_bytes vlen c"
  unfolding resident_bytes_def by (rule sum_list_nonneg) (auto simp: entry_size_nonneg)

lemma Add_evict_negative:
  "\<forall>v. 0 \<le> vlen v \<Longrightarrow> wf_cache c \<Longrightarrow> nbytes c = resident_bytes vlen c \<Longrightarrow> maxBytes c < 0
     \<Longrightarrow> Add_evict vlen c = None"
proof (induction "length (ll c)" arbitrary: c)
  case 0
  then have "nbytes c = 0" by (simp add: resident_bytes_def)
  with 0 show ?case by (intro Add_evict_diverges) auto
next
  case (Suc n)
  have ne: "ll c \<noteq> []" using Suc(2) by auto
  have "n = length (ll (RemoveOldest vlen c))"
    using Suc(2) RemoveOldest_fields(1)[OF Suc(4) ne] by simp
  from Suc(1)[OF this Suc(3) wf_RemoveOldest[OF Suc(4)] bytes_RemoveOldest[OF Suc(4) Suc(5)]] Suc(6)
  have "Add_evict vlen (RemoveOldest vlen c) = None" by (simp add: RemoveOldest_same)
  moreover have "maxBytes c \<noteq> 0 \<and> maxBytes c < nbytes c"
    using Suc(5,6) resident_bytes_nonneg[OF Suc(3), of c] by simp
  ultimately show ?case by (subst Add_evict.simps) simp
qed

lemma Add_negative_capacity:
  assumes "\<forall>v. 0 \<le> vlen v" "wf_cache c" "nbytes c = resident_bytes vlen c" "maxBytes c < 0"
  shows "Add vlen c k v = None"
  unfolding Add_def
  by (rule Add_evict_negative[OF assms(1) wf_Add_entry[OF assms(2)] bytes_Add_entry[OF assms(2,3)]])
     (simp add: Add_entry_same assms(4))

lemma Len_nonneg: "\<forall>v. 0 \<le> Len v"
  by (simp add: Len_def)




text \<open>
  C2. In a store reached from a new one by any sequence of operations, when the next
  operation removes an entry \<open>e\<close> (a key that was resident, or the key the
  operation adds) while an entry \<open>r\<close> stays, then \<open>e\<close> was last touched,
  by \<open>Add\<close> or \<open>Get\<close>, before \<open>r\<close> was: evictions take the
  least recently touched entries. In the scenario (capacity = the sizes of \<open>k1\<close>,
  \<open>k2\<close> and their values; add \<open>k1\<close>, add \<open>k2\<close>, get
  \<open>k1\<close>, add \<open>k3\<close>) the list holds \<open>k3\<close> then \<open>k1\<close>,
  the index holds \<open>k1\<close> and \<open>k3\<close> but not \<open>k2\<close>, and the
  callback was called once, for \<open>k2\<close>.
\<close>

theorem evicts_least_recently_touched:
  "(run_ops vlen ops (New mb cb w) = Some c \<and> step_op vlen x c = Some c'
      \<and> e \<in> dom (cache c) \<union> added x \<and> e \<notin> dom (cache c') \<and> r \<in> dom (cache c')
     \<longrightarrow> last_touch (ops @ [x]) e < last_touch (ops @ [x]) r)
   \<and> map_option (\<lambda>c. (resident_keys c, map (has_key c) [''k1'', ''k2'', ''k3''], evict_env c))
        (run_ops Len (scenario_ops @ [OpAdd ''k3'' (view_len 2 2)]) scenario_store)
      = Some ([''k3'', ''k1''], [True, False, True], [(''k2'', view_len 1 2)])"
proof (intro conjI impI)
  assume h: "run_ops vlen ops (New mb cb w) = Some c \<and> step_op vlen x c = Some c'
      \<and> e \<in> dom (cache c) \<union> added x \<and> e \<notin> dom (cache c') \<and> r \<in> dom (cache c')"
  then have run: "run_ops vlen ops (New mb cb w) = Some c" and st: "step_op vlen x c = Some c'"
    and e: "e \<in> dom (cache c) \<union> added x" and ne: "e \<notin> dom (cache c')" and r: "r \<in> dom (cache c')"
    by simp_all
  from recency_run[OF recency_New run]
  have ro: "recency_ordered (length ops) (last_touch ops) c" by (simp add: last_touch_def)
  let ?t = "last_touch (ops @ [x])"
  show "?t e < ?t r"
  proof (cases x)
    case (OpGet k)
    with st have "cache c' = cache c" by (auto simp: Get_def split: option.splits)
    with e ne OpGet show ?thesis by simp
  next
    case OpRemoveOldest
    with st have c': "c' = (RemoveOldest vlen ^^ 1) c" by simp
    have t: "?t = last_touch ops" by (simp add: last_touch_snoc OpRemoveOldest touch_def)
    from e OpRemoveOldest have "e \<in> dom (cache c)" by simp
    from evicted_older[OF ro this, where cnt = 1 and r = r and vlen = vlen] ne r show ?thesis unfolding t c' by simp
  next
    case (OpAdd k v)
    with st have "Add_evict vlen (Add_entry vlen c k v) = Some c'" by (simp add: Add_def)
    from Add_evict_Some[OF this] obtain cnt where c': "c' = (RemoveOldest vlen ^^ cnt) (Add_entry vlen c k v)" by blast
    have t: "?t = (last_touch ops)(k := Suc (length ops))" by (simp add: last_touch_snoc OpAdd touch_def)
    have ro1: "recency_ordered (Suc (length ops)) ?t (Add_entry vlen c k v)"
      unfolding t by (rule recency_Add_entry[OF ro])
    from e OpAdd have "e \<in> dom (cache (Add_entry vlen c k v))" by (simp add: Add_entry_dom)
    from evicted_older[OF ro1 this, where cnt = cnt and r = r and vlen = vlen] ne r show ?thesis unfolding c' by simp
  qed
next
  show "map_option (\<lambda>c. (resident_keys c, map (has_key c) [''k1'', ''k2'', ''k3''], evict_env c))
        (run_ops Len (scenario_ops @ [OpAdd ''k3'' (view_len 2 2)]) scenario_store)
      = Some ([''k3'', ''k1''], [True, False, True], [(''k2'', view_len 1 2)])"
    by (simp add: scenario_defs)
qed

theorem evicts_least_recently_touched_witness:
  "(\<exists>c c'. run_ops Len scenario_ops scenario_store = Some c \<and> step_op Len (OpAdd ''k3'' (view_len 2 2)) c = Some c'
      \<and> ''k2'' \<in> dom (cache c) \<and> ''k2'' \<notin> dom (cache c') \<and> ''k1'' \<in> dom (cache c'))
   \<and> last_touch (scenario_ops @ [OpAdd ''k3'' (view_len 2 2)]) ''k2''
       < last_touch (scenario_ops @ [OpAdd ''k3'' (view_len 2 2)]) ''k1''"
proof -
  have ex: "\<exists>c c'. run_ops Len scenario_ops scenario_store = Some c \<and> step_op Len (OpAdd ''k3'' (view_len 2 2)) c = Some c'
      \<and> ''k2'' \<in> dom (cache c) \<and> ''k2'' \<notin> dom (cache c') \<and> ''k1'' \<in> dom (cache c')"
    by (simp add: scenario_defs)
  then obtain c c' where h: "run_ops Len scenario_ops (New 8 (Some record_eviction) []) = Some c \<and> step_op Len (OpAdd ''k3'' (view_len 2 2)) c = Some c'
      \<and> ''k2'' \<in> dom (cache c) \<union> added (OpAdd ''k3'' (view_len 2 2)) \<and> ''k2'' \<notin> dom (cache c') \<and> ''k1'' \<in> dom (cache c')"
    by (auto simp: scenario_store_def view_len_def Len_def)
  from evicts_least_recently_touched[THEN conjunct1, rule_format, OF h] ex show ?thesis by blast
qed

section \<open>Properties of the hash ring\<close>

lemma Search_loop_spec:
  "(\<forall>a c. a \<le> c \<and> c < n \<and> f a \<longrightarrow> f c) \<Longrightarrow> i \<le> j \<Longrightarrow> j \<le> n \<Longrightarrow>
   (\<forall>k<i. \<not> f k) \<Longrightarrow> (\<forall>k. j \<le> k \<and> k < n \<longrightarrow> f k) \<Longrightarrow>
     i \<le> Search_loop f i j \<and> Search_loop f i j \<le> j
     \<and> (\<forall>k < Search_loop f i j. \<not> f k) \<and> (\<forall>k. Search_loop f i j \<le> k \<and> k < n \<longrightarrow> f k)"
proof (induction f i j rule: Search_loop.induct)
  case (1 f i j)
  note mono = 1(3)
  show ?case
  proof (cases "i < j")
    case False
    then have eq: "Search_loop f i j = i" by (subst Search_loop.simps) simp
    from False 1(4) have "i = j" by simp
    with 1(6,7) show ?thesis unfolding eq by simp
  next
    case True
    let ?h = "(i + j) div 2"
    have h: "i \<le> ?h" "?h < j" using True by auto
    have hn: "?h < n" using h 1(5) by simp
    show ?thesis
    proof (cases "f ?h")
      case False
      have lo: "\<forall>k<?h + 1. \<not> f k"
      proof (intro allI impI)
        fix k assume "k < ?h + 1"
        then have kh: "k \<le> ?h" by simp
        show "\<not> f k"
        proof
          assume "f k"
          with mono kh hn have "f ?h" by blast
          with False show False by simp
        qed
      qed
      have eq: "Search_loop f i j = Search_loop f (?h + 1) j"
        using True False by (subst Search_loop.simps) (simp add: Let_def)
      have le: "?h + 1 \<le> j" using h by simp
      let ?r = "Search_loop f (?h + 1) j"
      from 1(1)[OF True refl False mono le 1(5) lo 1(7)]
      have a: "?h + 1 \<le> ?r" "?r \<le> j" "\<forall>k<?r. \<not> f k" "\<forall>k. ?r \<le> k \<and> k < n \<longrightarrow> f k"
        by blast+
      have "i \<le> ?r" using h(1) a(1) by linarith
      with a show ?thesis unfolding eq by blast
    next
      case fh: True
      have hi: "\<forall>k. ?h \<le> k \<and> k < n \<longrightarrow> f k"
      proof (intro allI impI)
        fix k assume "?h \<le> k \<and> k < n"
        with mono fh show "f k" by blast
      qed
      have eq: "Search_loop f i j = Search_loop f i ?h"
        using True fh by (subst Search_loop.simps) (simp add: Let_def)
      have hle: "?h \<le> n" using hn by simp
      let ?r = "Search_loop f i ?h"
      from 1(2)[OF True refl _ mono h(1) hle 1(6) hi] fh
      have a: "i \<le> ?r" "?r \<le> ?h" "\<forall>k<?r. \<not> f k" "\<forall>k. ?r \<le> k \<and> k < n \<longrightarrow> f k"
        by blast+
      have "?r \<le> j" using h(2) a(2) by linarith
      with a show ?thesis unfolding eq by blast
    qed
  qed
qed

lemma Search_spec:
  assumes "\<forall>a c. a \<le> c \<and> c < n \<and> f a \<longrightarrow> f c"
  shows "Search n f \<le> n \<and> (\<forall>k < Search n f. \<not> f k) \<and> (\<forall>k. Search n f \<le> k \<and> k < n \<longrightarrow> f k)"
proof -
  have 1: "(0::nat) \<le> n" "n \<le> n" by simp_all
  have 2: "\<forall>k<0::nat. \<not> f k" by simp
  have 3: "\<forall>k. n \<le> k \<and> k < n \<longrightarrow> f k" by auto
  from Search_loop_spec[OF assms 1 2 3] show ?thesis unfolding Search_def by blast
qed

lemma Search_first_ge:
  assumes "sorted ks" "ks \<noteq> []"
  shows "ks ! (Search (length ks) (\<lambda>i. ks ! i \<ge> h) mod length ks) = ring_owner ks (h::int)"
proof -
  let ?f = "\<lambda>i. ks ! i \<ge> h"
  let ?r = "Search (length ks) ?f"
  have mono: "\<forall>a c. a \<le> c \<and> c < length ks \<and> ?f a \<longrightarrow> ?f c"
  proof (intro allI impI)
    fix a c assume "a \<le> c \<and> c < length ks \<and> h \<le> ks ! a"
    then have "a \<le> c" "c < length ks" "h \<le> ks ! a" by simp_all
    from sorted_nth_mono[OF assms(1) this(1,2)] this(3) show "h \<le> ks ! c" by simp
  qed
  from Search_spec[OF mono]
  have r: "?r \<le> length ks" and lo: "\<forall>k < ?r. \<not> ?f k" and hi: "\<forall>k. ?r \<le> k \<and> k < length ks \<longrightarrow> ?f k"
    by blast+
  show ?thesis
  proof (cases "?r < length ks")
    case True
    with hi have "?f ?r" by simp
    with True lo have "find (\<lambda>k. h \<le> k) ks = Some (ks ! ?r)"
      unfolding find_Some_iff by blast
    with True show ?thesis by (simp add: ring_owner_def)
  next
    case False
    with r have e: "?r = length ks" by simp
    have "\<not> h \<le> x" if "x \<in> set ks" for x
    proof -
      from that obtain k where "k < length ks" "x = ks ! k" by (auto simp: in_set_conv_nth)
      with lo e show ?thesis by simp
    qed
    then have "find (\<lambda>k. h \<le> k) ks = None"
      unfolding find_None_iff by blast
    with e assms(2) show ?thesis by (simp add: ring_owner_def hd_conv_nth)
  qed
qed

lemma ring_ok_replica: "ring_ok r \<Longrightarrow> ring_ok (Add_replica r node i) \<and> hash (Add_replica r node i) = hash r"
  by (auto simp: ring_ok_def Add_replica_def Let_def)

lemma Add_node_inv: "ring_ok r \<Longrightarrow> ring_ok (Add_node r node) \<and> hash (Add_node r node) = hash r"
proof -
  have "ring_ok r \<Longrightarrow> ring_ok (fold (\<lambda>i r'. Add_replica r' node i) is r)
         \<and> hash (fold (\<lambda>i r'. Add_replica r' node i) is r) = hash r" for "is"
    by (induction "is" arbitrary: r) (simp_all add: ring_ok_replica)
  then show "ring_ok r \<Longrightarrow> ring_ok (Add_node r node) \<and> hash (Add_node r node) = hash r"
    by (simp add: Add_node_def)
qed

lemma Add_inv:
  assumes "ring_ok r"
  shows "ring_ok (consistenthash_Add r nodes) \<and> sorted (keys (consistenthash_Add r nodes))
     \<and> hash (consistenthash_Add r nodes) = hash r"
proof -
  have "ring_ok r \<Longrightarrow> ring_ok (fold (\<lambda>node r'. Add_node r' node) ns r)
         \<and> hash (fold (\<lambda>node r'. Add_node r' node) ns r) = hash r" for ns
    by (induction ns arbitrary: r) (simp_all add: Add_node_inv)
  from this[OF assms, of nodes] show ?thesis
    by (simp add: consistenthash_Add_def Let_def ring_ok_def)
qed

lemma ring_of_inv:
  "ring_ok (ring_of crc n fn batches) \<and> sorted (keys (ring_of crc n fn batches))
   \<and> hash (ring_of crc n fn batches) = (case fn of None \<Rightarrow> crc | Some f \<Rightarrow> f)"
proof -
  have "ring_ok r \<Longrightarrow> sorted (keys r) \<Longrightarrow>
        ring_ok (fold (\<lambda>nodes r. consistenthash_Add r nodes) batches r)
        \<and> sorted (keys (fold (\<lambda>nodes r. consistenthash_Add r nodes) batches r))
        \<and> hash (fold (\<lambda>nodes r. consistenthash_Add r nodes) batches r) = hash r" for r
    by (induction batches arbitrary: r) (simp_all add: Add_inv)
  from this[of "consistenthash_New crc n fn"] show ?thesis
    by (simp add: ring_of_def consistenthash_New_def ring_ok_def)
qed

text \<open>
  C4. \<open>Get\<close> on a ring without nodes returns the empty string. A ring built by
  \<open>New\<close> and any calls of \<open>Add\<close> has its hashes sorted, and on it \<open>Get\<close>
  returns the node that \<open>hashMap\<close> holds for the first hash in the sequence that is
  at least the key's hash, or for the first hash of the sequence when there is none:
  the binary search and the index modulo the length compute exactly this. The result
  is a function of the ring and the key alone.
\<close>

theorem ring_Get_first_at_or_after:
  "consistenthash_Get (consistenthash_New crc n fn) key = []
   \<and> sorted (keys (ring_of crc n fn batches))
   \<and> (if keys (ring_of crc n fn batches) = []
      then consistenthash_Get (ring_of crc n fn batches) key = []
      else hashMap (ring_of crc n fn batches)
             (ring_owner (keys (ring_of crc n fn batches)) (uint (hash (ring_of crc n fn batches) key)))
           = Some (consistenthash_Get (ring_of crc n fn batches) key))"
proof -
  let ?r = "ring_of crc n fn batches"
  note inv = ring_of_inv[of crc n fn batches]
  have 1: "consistenthash_Get (consistenthash_New crc n fn) key = []"
    by (simp add: consistenthash_Get_def consistenthash_New_def)
  have 3: "hashMap ?r (ring_owner (keys ?r) (uint (hash ?r key))) = Some (consistenthash_Get ?r key)"
    if ne: "keys ?r \<noteq> []"
  proof -
    from inv have s: "sorted (keys ?r)" and ok: "ring_ok ?r" by simp_all
    let ?k = "keys ?r ! (Search (length (keys ?r)) (\<lambda>i. keys ?r ! i \<ge> uint (hash ?r key)) mod length (keys ?r))"
    have k: "?k = ring_owner (keys ?r) (uint (hash ?r key))" by (rule Search_first_ge[OF s ne])
    have "?k \<in> set (keys ?r)" using ne by simp
    with ok obtain node where node: "hashMap ?r ?k = Some node" by (auto simp: ring_ok_def)
    then have "consistenthash_Get ?r key = node" using ne by (simp add: consistenthash_Get_def Let_def)
    with node k show ?thesis by simp
  qed
  show ?thesis using 1 3 inv by (simp add: consistenthash_Get_def)
qed

lemma example_ring_keys: "keys example_ring = [3, 3, 3, 5, 5, 5]"
  by code_simp

lemma example_ring_hash: "hash example_ring = length_hash"
  unfolding example_ring_def using ring_of_inv[of length_hash 3 "Some length_hash" "[[''ab'', ''wxyz'']]"] by simp

lemma example_ring_Get:
  "consistenthash_Get example_ring ''abcd'' = ''wxyz''" "consistenthash_Get example_ring ''abcdefg'' = ''ab''"
  by code_simp+

theorem ring_Get_first_at_or_after_witness:
  "keys example_ring = [3, 3, 3, 5, 5, 5]
   \<and> hashMap example_ring (ring_owner [3, 3, 3, 5, 5, 5] 4) = Some ''wxyz''
   \<and> consistenthash_Get example_ring ''abcd'' = ''wxyz''
   \<and> hashMap example_ring (ring_owner [3, 3, 3, 5, 5, 5] 7) = Some ''ab''
   \<and> consistenthash_Get example_ring ''abcdefg'' = ''ab''"
proof -
  have h4: "uint (length_hash ''abcd'') = 4" and h7: "uint (length_hash ''abcdefg'') = 7"
    by (simp_all add: length_hash_def)
  from ring_Get_first_at_or_after[of length_hash 3 "Some length_hash" "''abcd''" "[[''ab'', ''wxyz'']]"]
  have a: "hashMap example_ring (ring_owner [3, 3, 3, 5, 5, 5] 4) = Some ''wxyz''"
    by (simp add: example_ring_def[symmetric] example_ring_keys example_ring_hash h4 example_ring_Get)
  from ring_Get_first_at_or_after[of length_hash 3 "Some length_hash" "''abcdefg''" "[[''ab'', ''wxyz'']]"]
  have c: "hashMap example_ring (ring_owner [3, 3, 3, 5, 5, 5] 7) = Some ''ab''"
    by (simp add: example_ring_def[symmetric] example_ring_keys example_ring_hash h7 example_ring_Get)
  from a c show ?thesis by (simp add: example_ring_keys example_ring_Get)
qed

section \<open>Properties of the group\<close>

lemma get_miss_same: "snd (get c key) = None \<Longrightarrow> get c key = (c, None)"
  by (auto simp: get_def Get_def split: option.splits prod.splits)

lemma Do_idle:
  "idle g key \<Longrightarrow>
     Do g key fn s =
       (case fn s of
          Returns (r, s') \<Rightarrow> Returns (r, g\<lparr>m := Some ((case m g of None \<Rightarrow> Map.empty | Some t \<Rightarrow> t)(key := None))\<rparr>, s')
        | Panics p \<Rightarrow> Panics p
        | Hangs \<Rightarrow> Hangs)"
  by (auto simp: Do_def idle_def Let_def split: option.splits)

text \<open>
  C9. \<open>Get\<close> with the empty key returns the error \<open>key is required\<close>; the
  group (its store, its peers, its coalescer) and the world (on which the getter and
  the peers would have run) are returned as they were.
\<close>

theorem empty_key_rejected:
  "Group_Get g [] w = Returns (Inl ''key is required'', g, w)"
  by (simp add: Group_Get_def)

text \<open>
  C8. When the picker of a group names a peer for a key that is not in the local store
  and the peer returns bytes, \<open>load\<close> (and \<open>Get\<close>) return these bytes as a
  view, the world is the one the peer left (the getter has not run), and the local
  store is unchanged: the key is still absent from it.
\<close>

theorem remote_fetch_not_cached:
  assumes "peers g = Some pick" and "pick key w = Some peer"
    and "peer (name g) key w = (Inr bytes, w1)"
    and "idle (loader g) key" and "key \<noteq> []" and "snd (get (mainCache g) key) = None"
  shows "\<exists>g'. load g key w = Returns (Inr \<lparr>b = bytes\<rparr>, g', w1)
             \<and> Group_Get g key w = Returns (Inr \<lparr>b = bytes\<rparr>, g', w1)
             \<and> mainCache g' = mainCache g \<and> snd (get (mainCache g') key) = None"
proof -
  have fn: "load_fn key (g, w) = Returns (Inr \<lparr>b = bytes\<rparr>, g, w1)"
    using assms(1-3) by (simp add: load_fn_def getFromPeer_def)
  let ?ld = "(loader g)\<lparr>m := Some ((case m (loader g) of None \<Rightarrow> Map.empty | Some t \<Rightarrow> t)(key := None))\<rparr>"
  have l: "load g key w = Returns (Inr \<lparr>b = bytes\<rparr>, g\<lparr>loader := ?ld\<rparr>, w1)"
    by (simp add: load_def Do_idle[OF assms(4)] fn)
  have "Group_Get g key w = load g key w"
    using assms(5) get_miss_same[OF assms(6)] by (simp add: Group_Get_def)
  with l assms(6) show ?thesis by simp
qed

text \<open>
  C6. \<open>NewGroup\<close> called for the group \<open>scores\<close> with a nil getter returns
  (it does not panic), and called with the getter of the test it returns the same
  group: no getter, no name, a store of capacity 0. In both cases the registry is
  left as it was, so \<open>GetGroup\<close> of the name returns nil, and \<open>Get\<close> of
  a key on the returned group panics when it reaches the getter.
\<close>

theorem NewGroup_checks_and_registers_nothing:
  "NewGroup ''scores'' 2048 None Map.empty = Returns (zero_group, Map.empty)
   \<and> NewGroup ''scores'' 2048 (Some slow_db) Map.empty = Returns (zero_group, Map.empty)
   \<and> GetGroup Map.empty ''scores'' = (None :: (string \<Rightarrow> nat) Group option)
   \<and> getter zero_group = None \<and> name zero_group = [] \<and> cacheBytes (mainCache zero_group) = 0
   \<and> Group_Get zero_group ''Tom'' world0
       = Panics ''runtime error: invalid memory address or nil pointer dereference''"
  by (simp add: NewGroup_def GetGroup_def zero_group_def Group_Get_def get_def load_def Do_def
      load_fn_def getLocally_def)

lemma evict_keeps_head:
  "wf_cache c \<Longrightarrow> nbytes c = resident_bytes vlen c \<Longrightarrow> ll c = ele # rest \<Longrightarrow>
   maxBytes c = 0 \<or> entry_size vlen (Value c ele) \<le> maxBytes c \<Longrightarrow>
   \<exists>c' rest'. Add_evict vlen c = Some c' \<and> ll c' = ele # rest' \<and> Value c' = Value c
       \<and> wf_cache c' \<and> nbytes c' = resident_bytes vlen c' \<and> maxBytes c' = maxBytes c"
proof (induction "length rest" arbitrary: c rest rule: less_induct)
  case less
  show ?case
  proof (cases "maxBytes c \<noteq> 0 \<and> maxBytes c < nbytes c")
    case False
    then have "Add_evict vlen c = Some c" by (subst Add_evict.simps) auto
    with less.prems show ?thesis by blast
  next
    case True
    with less.prems(4) have sz: "entry_size vlen (Value c ele) < nbytes c" by auto
    have "resident_bytes vlen c = entry_size vlen (Value c ele) + sum_list (map (\<lambda>a. entry_size vlen (Value c a)) rest)"
      by (simp add: resident_bytes_def less.prems(3))
    with sz less.prems(2) have "rest \<noteq> []" by auto
    have ne: "ll c \<noteq> []" by (simp add: less.prems(3))
    let ?c1 = "RemoveOldest vlen c"
    have l1: "ll ?c1 = ele # butlast rest"
      using RemoveOldest_fields(1)[OF less.prems(1) ne] \<open>rest \<noteq> []\<close> by (simp add: less.prems(3))
    have len: "length (butlast rest) < length rest" using \<open>rest \<noteq> []\<close> by simp
    have fit1: "maxBytes ?c1 = 0 \<or> entry_size vlen (Value ?c1 ele) \<le> maxBytes ?c1"
      using less.prems(4) by (simp add: RemoveOldest_same)
    from less.hyps[OF len wf_RemoveOldest[OF less.prems(1)] bytes_RemoveOldest[OF less.prems(1,2)] l1 fit1]
    obtain c' rest' where "Add_evict vlen ?c1 = Some c'" "ll c' = ele # rest'" "Value c' = Value ?c1"
      "wf_cache c'" "nbytes c' = resident_bytes vlen c'" "maxBytes c' = maxBytes ?c1" by blast
    moreover have "Add_evict vlen c = Add_evict vlen ?c1" using True by (subst Add_evict.simps) simp
    ultimately show ?thesis by (auto simp: RemoveOldest_same)
  qed
qed

lemma Add_keeps_new:
  assumes wf: "wf_cache l" and acc: "nbytes l = resident_bytes vlen l"
    and miss: "cache l key = None"
    and fits: "maxBytes l = 0 \<or> int (length key) + vlen v \<le> maxBytes l"
  shows "\<exists>l' ele rest. Add vlen l key v = Some l' \<and> ll l' = ele # rest \<and> cache l' key = Some ele
           \<and> entry_value (Value l' ele) = v
           \<and> wf_cache l' \<and> nbytes l' = resident_bytes vlen l' \<and> maxBytes l' = maxBytes l"
proof -
  let ?l1 = "Add_entry vlen l key v"
  let ?e = "new_element (ll l)"
  note f = Add_entry_None[OF miss, where vlen = vlen and v = v]
  have fit1: "maxBytes ?l1 = 0 \<or> entry_size vlen (Value ?l1 ?e) \<le> maxBytes ?l1"
    using fits by (simp add: f Add_entry_same entry_size_def)
  from evict_keeps_head[OF wf_Add_entry[OF wf] bytes_Add_entry[OF wf acc] f(1) fit1]
  obtain l' rest' where r: "Add_evict vlen ?l1 = Some l'" "ll l' = ?e # rest'" "Value l' = Value ?l1"
      "wf_cache l'" "nbytes l' = resident_bytes vlen l'" "maxBytes l' = maxBytes ?l1" by blast
  have "?e \<in> set (ll l')" by (simp add: r(2))
  from wf_cacheD(4)[OF r(4) this] have "cache l' key = Some ?e" by (simp add: r(3) f)
  with r show ?thesis by (simp add: Add_def f Add_entry_same)
qed

lemma Get_front:
  assumes "ll l = ele # rest" "cache l key = Some ele"
  shows "Get l key = (l, Some (entry_value (Value l ele)))"
  using assms by (simp add: Get_def MoveToFront_def)

lemma add_keeps_new:
  assumes ok: "cache_ok c" and miss: "snd (get c key) = None"
    and fits: "cacheBytes c = 0 \<or> int (length key) + Len v \<le> cacheBytes c"
  shows "\<exists>c'. add c key v = Some c' \<and> cache_ok c' \<and> cacheBytes c' = cacheBytes c
            \<and> get c' key = (c', Some v)"
proof -
  let ?l = "case lru c of None \<Rightarrow> New (cacheBytes c) None () | Some l \<Rightarrow> l"
  have wf: "wf_cache ?l" and acc: "nbytes ?l = resident_bytes Len ?l"
    using ok by (auto simp: cache_ok_def wf_New bytes_New split: option.splits)
  have mb: "maxBytes ?l = cacheBytes c"
    using ok by (auto simp: cache_ok_def New_def split: option.splits)
  have m: "cache ?l key = None"
    using miss by (auto simp: get_def Get_def New_def split: option.splits prod.splits)
  from Add_keeps_new[OF wf acc m, where v = v] fits mb
  obtain l' ele rest where r: "Add Len ?l key v = Some l'" "ll l' = ele # rest" "cache l' key = Some ele"
      "entry_value (Value l' ele) = v" "wf_cache l'" "nbytes l' = resident_bytes Len l'" "maxBytes l' = maxBytes ?l"
    by auto
  have a: "add c key v = Some (c\<lparr>lru := Some l'\<rparr>)" using r(1) by (simp add: add_def Let_def)
  have g: "get (c\<lparr>lru := Some l'\<rparr>) key = (c\<lparr>lru := Some l'\<rparr>, Some v)"
    by (simp add: get_def Get_front[OF r(2,3)] r(4))
  show ?thesis using a g r(5,6,7) mb by (simp add: cache_ok_def)
qed

lemma getLocally_fits:
  assumes ok: "cache_ok (mainCache g)" and miss: "snd (get (mainCache g) key) = None"
    and gf: "getter g = Some f" and gt: "f key w = (Inr bytes, w1)"
    and fits: "cacheBytes (mainCache g) = 0 \<or> int (length key) + int (sl_len bytes) \<le> cacheBytes (mainCache g)"
  shows "\<exists>c' v. getLocally g key w = Returns (Inr v, g\<lparr>mainCache := c'\<rparr>, w1\<lparr>heap := snd (cloneBytes (heap w1) bytes)\<rparr>)
           \<and> v = \<lparr>b = fst (cloneBytes (heap w1) bytes)\<rparr>
           \<and> cache_ok c' \<and> cacheBytes c' = cacheBytes (mainCache g) \<and> get c' key = (c', Some v)"
proof -
  let ?v = "\<lparr>b = fst (cloneBytes (heap w1) bytes)\<rparr>"
  have len: "Len ?v = int (sl_len bytes)"
    by (simp add: Len_def cloneBytes_def make_bytes_def Let_def)
  from add_keeps_new[OF ok miss, of ?v] fits len
  obtain c' where c': "add (mainCache g) key ?v = Some c'" "cache_ok c'"
    "cacheBytes c' = cacheBytes (mainCache g)" "get c' key = (c', Some ?v)" by auto
  have "getLocally g key w = Returns (Inr ?v, g\<lparr>mainCache := c'\<rparr>, w1\<lparr>heap := snd (cloneBytes (heap w1) bytes)\<rparr>)"
    by (simp add: getLocally_def gf gt populateCache_def c'(1) split_beta Let_def)
  with c' show ?thesis by blast
qed

text \<open>
  C1. For a group with a getter and without peers, a key that is not empty, not in the
  store and not in flight: when the getter returns bytes and the entry fits the store
  (the capacity is 0, or \<open>len(key) + len(bytes)\<close> is at most the capacity),
  \<open>Get\<close> returns the view whose slice is the one \<open>cloneBytes\<close> makes of
  these bytes, a fresh copy with the same contents; the world is the one the getter
  left plus that copy, the view is in the store, and a second \<open>Get\<close> of the key
  returns the same view and leaves the group and any world as they are: the getter
  has run once. When the getter fails, \<open>Get\<close> returns its error and the store
  is unchanged.
\<close>

theorem getter_once_per_cold_key:
  assumes "getter g = Some f" and "peers g = None" and "idle (loader g) key" and "key \<noteq> []"
    and "cache_ok (mainCache g)" and "snd (get (mainCache g) key) = None"
  shows "(f key w = (Inr bytes, w1)
          \<and> (cacheBytes (mainCache g) = 0
              \<or> int (length key) + int (sl_len bytes) \<le> cacheBytes (mainCache g))
          \<and> in_bounds (heap w1) bytes
         \<longrightarrow> (\<exists>g1 v. Group_Get g key w
                         = Returns (Inr v, g1, w1\<lparr>heap := snd (cloneBytes (heap w1) bytes)\<rparr>)
                \<and> b v = fst (cloneBytes (heap w1) bytes)
                \<and> String (snd (cloneBytes (heap w1) bytes)) v = contents (heap w1) bytes
                \<and> snd (get (mainCache g1) key) = Some v
                \<and> getter g1 = Some f \<and> peers g1 = None \<and> idle (loader g1) key
                \<and> cache_ok (mainCache g1)
                \<and> (\<forall>w2. Group_Get g1 key w2 = Returns (Inr v, g1, w2))))
       \<and> (f key w = (Inl err, w1)
         \<longrightarrow> (\<exists>g1. Group_Get g key w = Returns (Inl err, g1, w1) \<and> mainCache g1 = mainCache g))"
proof (intro conjI impI)
  note miss = get_miss_same[OF assms(6)]
  let ?ld = "(loader g)\<lparr>m := Some ((case m (loader g) of None \<Rightarrow> Map.empty | Some t \<Rightarrow> t)(key := None))\<rparr>"
  have G: "Group_Get g key w = load g key w"
    using assms(4) miss by (simp add: Group_Get_def)
  have L: "load g key w =
      (case getLocally g key w of
         Returns (r, g', w') \<Rightarrow> Returns (r, g'\<lparr>loader := ?ld\<rparr>, w')
       | Panics p \<Rightarrow> Panics p | Hangs \<Rightarrow> Hangs)"
    by (simp add: load_def Do_idle[OF assms(3)] load_fn_def assms(2) split: outcome.splits)
  {
    assume h: "f key w = (Inr bytes, w1)
          \<and> (cacheBytes (mainCache g) = 0
              \<or> int (length key) + int (sl_len bytes) \<le> cacheBytes (mainCache g))
          \<and> in_bounds (heap w1) bytes"
    then have gt: "f key w = (Inr bytes, w1)"
      and fits: "cacheBytes (mainCache g) = 0 \<or> int (length key) + int (sl_len bytes) \<le> cacheBytes (mainCache g)"
      and ib: "in_bounds (heap w1) bytes" by simp_all
    from getLocally_fits[OF assms(5,6,1) gt fits]
    obtain c' v where r: "getLocally g key w = Returns (Inr v, g\<lparr>mainCache := c'\<rparr>, w1\<lparr>heap := snd (cloneBytes (heap w1) bytes)\<rparr>)"
      "v = \<lparr>b = fst (cloneBytes (heap w1) bytes)\<rparr>" "cache_ok c'" "get c' key = (c', Some v)" by blast
    let ?g1 = "g\<lparr>mainCache := c', loader := ?ld\<rparr>"
    have 1: "Group_Get g key w = Returns (Inr v, ?g1, w1\<lparr>heap := snd (cloneBytes (heap w1) bytes)\<rparr>)"
      by (simp add: G L r(1))
    obtain s mem1 where cb: "cloneBytes (heap w1) bytes = (s, mem1)" by (cases "cloneBytes (heap w1) bytes")
    have 2: "String (snd (cloneBytes (heap w1) bytes)) v = contents (heap w1) bytes"
      using cloneBytes_fresh[OF cb] cloneBytes_cells[OF cb ib]
      by (simp add: String_def r(2) cb contents_def)
    have 3: "snd (get (mainCache ?g1) key) = Some v" by (simp add: r(4))
    have 4: "getter ?g1 = Some f" "peers ?g1 = None" "idle (loader ?g1) key" "cache_ok (mainCache ?g1)"
      using assms(1,2) r(3) by (simp_all add: idle_def)
    have 5: "Group_Get ?g1 key w2 = Returns (Inr v, ?g1, w2)" for w2
      using assms(4) by (simp add: Group_Get_def r(4))
    have 6: "b v = fst (cloneBytes (heap w1) bytes)" by (simp add: r(2))
    from 1 2 3 4 5 6
    show "\<exists>g1 v. Group_Get g key w
                         = Returns (Inr v, g1, w1\<lparr>heap := snd (cloneBytes (heap w1) bytes)\<rparr>)
                \<and> b v = fst (cloneBytes (heap w1) bytes)
                \<and> String (snd (cloneBytes (heap w1) bytes)) v = contents (heap w1) bytes
                \<and> snd (get (mainCache g1) key) = Some v
                \<and> getter g1 = Some f \<and> peers g1 = None \<and> idle (loader g1) key
                \<and> cache_ok (mainCache g1)
                \<and> (\<forall>w2. Group_Get g1 key w2 = Returns (Inr v, g1, w2))"
      by blast
  }
  {
    assume e: "f key w = (Inl err, w1)"
    have "Group_Get g key w = Returns (Inl err, g\<lparr>loader := ?ld\<rparr>, w1)"
      by (simp add: G L getLocally_def assms(1) e)
    then show "\<exists>g1. Group_Get g key w = Returns (Inl err, g1, w1) \<and> mainCache g1 = mainCache g"
      by simp
  }
qed

theorem getter_once_per_cold_key_witness:
  "loadCounts (Get_twice (scores 2048) ''Tom'' world0) ''Tom'' = Some 1
   \<and> (\<exists>g1 v w1. Group_Get (scores 2048) ''Tom'' world0 = Returns (Inr v, g1, w1)
         \<and> b v = \<lparr>sl_array = 1, sl_off = 0, sl_len = 3\<rparr>
         \<and> String (heap w1) v = ''630'' \<and> ext w1 ''Tom'' = 1
         \<and> Group_Get g1 ''Tom'' w1 = Returns (Inr v, g1, w1))
   \<and> (\<exists>g1. Group_Get (scores 2048) ''unknown'' world0 = Returns (Inl ''unknown not exist'', g1, world0)
         \<and> mainCache g1 = mainCache (scores 2048))"
proof -
  let ?g = "scores 2048"
  let ?B = "\<lparr>sl_array = 0, sl_off = 0, sl_len = 3\<rparr>"
  let ?W = "world0\<lparr>heap := snd (bytes_of_string mem0 ''630''), ext := (\<lambda>_. 0)(''Tom'' := Suc 0)\<rparr>"
  have h: "getter ?g = Some slow_db" "peers ?g = None" "idle (loader ?g) k" "cache_ok (mainCache ?g)"
    "snd (get (mainCache ?g) k) = None" for k
    by (simp_all add: scores_def idle_def cache_ok_def get_def)
  have k: "''Tom'' \<noteq> []" "''unknown'' \<noteq> []" by simp_all
  have gt: "slow_db ''Tom'' world0 = (Inr ?B, ?W)
          \<and> (cacheBytes (mainCache ?g) = 0
              \<or> int (length ''Tom'') + int (sl_len ?B) \<le> cacheBytes (mainCache ?g))
          \<and> in_bounds (heap ?W) ?B"
    by (simp add: scores_def slow_db_def db_def world0_def bytes_of_string_def mem0_def in_bounds_def)
  have ge: "slow_db ''unknown'' world0 = (Inl ''unknown not exist'', world0)"
    by (simp add: slow_db_def db_def)
  let ?W' = "?W\<lparr>heap := snd (cloneBytes (heap ?W) ?B)\<rparr>"
  from getter_once_per_cold_key[OF h(1,2,3) k(1) h(4,5), where w = world0 and bytes = ?B and ?w1.0 = ?W, THEN conjunct1, rule_format, OF gt]
  obtain g1 v where 1: "Group_Get ?g ''Tom'' world0 = Returns (Inr v, g1, ?W')"
    and 0: "b v = fst (cloneBytes (heap ?W) ?B)"
    and 2: "String (snd (cloneBytes (heap ?W) ?B)) v = contents (heap ?W) ?B"
    and 3: "\<forall>w2. Group_Get g1 ''Tom'' w2 = Returns (Inr v, g1, w2)" by blast
  have c: "contents (heap ?W) ?B = ''630''"
    by (simp add: contents_def world0_def bytes_of_string_def mem0_def)
  have cl: "fst (cloneBytes (heap ?W) ?B) = \<lparr>sl_array = 1, sl_off = 0, sl_len = 3\<rparr>"
    by (simp add: cloneBytes_def make_bytes_def world0_def bytes_of_string_def mem0_def)
  have e: "ext ?W' ''Tom'' = 1" by simp
  have a: "loadCounts (Get_twice ?g ''Tom'' world0) ''Tom'' = Some 1"
    using 1 3 e by (simp add: Get_twice_def loadCounts_def)
  have b: "\<exists>g1 v w1. Group_Get ?g ''Tom'' world0 = Returns (Inr v, g1, w1)
         \<and> b v = \<lparr>sl_array = 1, sl_off = 0, sl_len = 3\<rparr>
         \<and> String (heap w1) v = ''630'' \<and> ext w1 ''Tom'' = 1
         \<and> Group_Get g1 ''Tom'' w1 = Returns (Inr v, g1, w1)"
    using 1 0 2 3 c cl e by (intro exI[of _ g1] exI[of _ v] exI[of _ ?W']) simp
  from getter_once_per_cold_key[OF h(1,2,3) k(2) h(4,5), where w = world0 and ?w1.0 = world0 and err = "''unknown not exist''", THEN conjunct2, rule_format, OF ge]
  have d: "\<exists>g1. Group_Get ?g ''unknown'' world0 = Returns (Inl ''unknown not exist'', g1, world0)
         \<and> mainCache g1 = mainCache ?g" .
  from a b d show ?thesis by blast
qed

lemma scores_negative_hangs: "Group_Get (scores (- 1)) ''Tom'' world0 = Hangs"
proof -
  have "Add Len (New (- 1) None ()) ''Tom'' v = None" for v
    by (rule Add_negative_capacity[OF Len_nonneg wf_New]) (simp_all add: bytes_New, simp add: New_def)
  then show ?thesis
    by (simp add: Group_Get_def get_def load_def Do_def load_fn_def getLocally_def populateCache_def
        add_def scores_def slow_db_def db_def split_beta Let_def)
qed

text \<open>With a capacity of 1 byte the entry of \<open>Tom\<close> is evicted by the \<open>Add\<close>
  that inserts it, and the second \<open>Get\<close> loads it again; with a negative
  capacity \<open>Get\<close> never returns.\<close>

theorem getter_twice_when_entry_too_large_counterexample:
  "loadCounts (Get_twice (scores 1) ''Tom'' world0) ''Tom'' = Some 2
   \<and> Group_Get (scores (- 1)) ''Tom'' world0 = Hangs"
proof -
  have "loadCounts (Get_twice (scores 1) ''Tom'' world0) ''Tom'' = Some 2"
    by (simp add: group_defs scenario_defs)
  with scores_negative_hangs show ?thesis by simp
qed

theorem remote_fetch_not_cached_witness:
  "\<exists>g' w1. Group_Get ((scores 2048)\<lparr>peers := Some always_peer_630\<rparr>) ''Tom'' world0
              = Returns (Inr \<lparr>b = \<lparr>sl_array = 0, sl_off = 0, sl_len = 3\<rparr>\<rparr>, g', w1)
         \<and> contents (heap w1) \<lparr>sl_array = 0, sl_off = 0, sl_len = 3\<rparr> = ''630''
         \<and> ext w1 ''Tom'' = 0
         \<and> mainCache g' = mainCache (scores 2048) \<and> lru (mainCache g') = None"
proof -
  let ?g = "(scores 2048)\<lparr>peers := Some always_peer_630\<rparr>"
  let ?B = "\<lparr>sl_array = 0, sl_off = 0, sl_len = 3\<rparr>"
  let ?W = "world0\<lparr>heap := snd (bytes_of_string mem0 ''630'')\<rparr>"
  have h1: "peers ?g = Some always_peer_630" by simp
  have h2: "always_peer_630 ''Tom'' world0 = Some peer_630" by (simp add: always_peer_630_def)
  have h3: "peer_630 (name ?g) ''Tom'' world0 = (Inr ?B, ?W)"
    by (simp add: peer_630_def world0_def bytes_of_string_def mem0_def)
  have h4: "idle (loader ?g) ''Tom''" by (simp add: scores_def idle_def)
  have h5: "''Tom'' \<noteq> []" by simp
  have h6: "snd (get (mainCache ?g) ''Tom'') = None" by (simp add: scores_def get_def)
  from remote_fetch_not_cached[OF h1 h2 h3 h4 h5 h6]
  obtain g' where "Group_Get ?g ''Tom'' world0 = Returns (Inr \<lparr>b = ?B\<rparr>, g', ?W)"
    "mainCache g' = mainCache ?g" by blast
  moreover have "contents (heap ?W) ?B = ''630''" "ext ?W ''Tom'' = 0"
    by (simp_all add: contents_def world0_def bytes_of_string_def mem0_def)
  moreover have "mainCache ?g = mainCache (scores 2048)" "lru (mainCache (scores 2048)) = None"
    by (simp_all add: scores_def)
  ultimately show ?thesis by (intro exI[of _ g'] exI[of _ ?W]) simp
qed

section \<open>Properties of the coalescer under interleaving\<close>































section \<open>Properties of the request handler\<close>

lemma HasPrefix_append: "HasPrefix (p @ rest) p"
  by (simp add: HasPrefix_def)

lemma SplitN2_no_slash: "CHR ''/'' \<notin> set s \<Longrightarrow> SplitN2 s = [s]"
proof -
  assume a: "CHR ''/'' \<notin> set s"
  then have "dropWhile (\<lambda>c. c \<noteq> CHR ''/'') s = []" by (auto simp: dropWhile_eq_Nil_conv)
  then show ?thesis by (simp add: SplitN2_def Let_def)
qed

lemma SplitN2_slash: "CHR ''/'' \<notin> set s \<Longrightarrow> SplitN2 (s @ CHR ''/'' # t) = [s, t]"
proof -
  assume a: "CHR ''/'' \<notin> set s"
  then have "dropWhile (\<lambda>c. c \<noteq> CHR ''/'') (s @ CHR ''/'' # t) = CHR ''/'' # t"
    by (auto simp: dropWhile_append3)
  moreover from a have "takeWhile (\<lambda>c. c \<noteq> CHR ''/'') (s @ CHR ''/'' # t) = s"
    by (auto simp: takeWhile_append2 takeWhile_tail)
  ultimately show ?thesis by (simp add: SplitN2_def Let_def)
qed

lemma http_Error_fresh:
  "status rw = None \<Longrightarrow> body rw = [] \<Longrightarrow>
     status (http_Error rw msg code) = Some code
     \<and> body (http_Error rw msg code) = msg @ [CHR 0x0A]
     \<and> Header (http_Error rw msg code) ''Content-Type'' = Some ''text/plain; charset=utf-8''"
  by (simp add: http_Error_def Write_def WriteHeader_def Let_def)

text \<open>
  C7. The handler, called with a response writer nothing was written to. A path that
  does not start with the base path panics. Otherwise the rest of the path is split at
  its first \<open>/\<close>: with no \<open>/\<close> in it the response is 400 with the body
  \<open>bad request\<close> and a newline; with a group name that \<open>GetGroup\<close> does
  not find, 404 with \<open>no such group: \<close>, the name and a newline; when \<open>Get\<close>
  of the group returns an error, 500 with the text of the error and a newline; when
  \<open>Get\<close> returns a view, 200 with the content type
  \<open>application/octet-stream\<close> and the bytes of the view as the body (through a copy
  of them, which is new in the memory). The key is all that follows the first
  \<open>/\<close>. The group in the registry is the one \<open>Get\<close> left.
\<close>

theorem ServeHTTP_responses:
  assumes "status rw = None" and "body rw = []"
  shows "(\<not> HasPrefix (URL_Path r) (basePath p)
            \<longrightarrow> ServeHTTP p rw r gs w = Panics (''HTTPPool serving unexpected path: '' @ URL_Path r))
       \<and> (URL_Path r = basePath p @ rest \<and> CHR ''/'' \<notin> set rest
            \<longrightarrow> (\<exists>rw'. ServeHTTP p rw r gs w = Returns (rw', gs, w)
                  \<and> status rw' = Some 400 \<and> body rw' = ''bad request'' @ [CHR 0x0A]))
       \<and> (URL_Path r = basePath p @ grp @ CHR ''/'' # key \<and> CHR ''/'' \<notin> set grp
            \<longrightarrow> (GetGroup gs grp = None
                   \<longrightarrow> (\<exists>rw'. ServeHTTP p rw r gs w = Returns (rw', gs, w)
                         \<and> status rw' = Some 404 \<and> body rw' = ''no such group: '' @ grp @ [CHR 0x0A]))
               \<and> (GetGroup gs grp = Some g \<and> Group_Get g key w = Returns (Inl err, g', w')
                   \<longrightarrow> (\<exists>rw'. ServeHTTP p rw r gs w = Returns (rw', gs(grp \<mapsto> g'), w')
                         \<and> status rw' = Some 500 \<and> body rw' = err @ [CHR 0x0A]))
               \<and> (GetGroup gs grp = Some g \<and> Group_Get g key w = Returns (Inr v, g', w')
                     \<and> in_bounds (heap w') (b v)
                   \<longrightarrow> (\<exists>rw'. ServeHTTP p rw r gs w
                                 = Returns (rw', gs(grp \<mapsto> g'), w'\<lparr>heap := snd (ByteSlice (heap w') v)\<rparr>)
                         \<and> status rw' = Some 200
                         \<and> Header rw' ''Content-Type'' = Some ''application/octet-stream''
                         \<and> body rw' = String (heap w') v)))"
proof (intro conjI impI)
  assume "\<not> HasPrefix (URL_Path r) (basePath p)"
  then show "ServeHTTP p rw r gs w = Panics (''HTTPPool serving unexpected path: '' @ URL_Path r)"
    by (simp add: ServeHTTP_def)
next
  assume a: "URL_Path r = basePath p @ rest \<and> CHR ''/'' \<notin> set rest"
  then have "ServeHTTP p rw r gs w = Returns (http_Error rw ''bad request'' 400, gs, w)"
    by (simp add: ServeHTTP_def HasPrefix_append SplitN2_no_slash Let_def)
  with http_Error_fresh[OF assms, of "''bad request''" 400]
  show "\<exists>rw'. ServeHTTP p rw r gs w = Returns (rw', gs, w)
                  \<and> status rw' = Some 400 \<and> body rw' = ''bad request'' @ [CHR 0x0A]"
    by simp
next
  assume a: "URL_Path r = basePath p @ grp @ CHR ''/'' # key \<and> CHR ''/'' \<notin> set grp"
    and n: "GetGroup gs grp = None"
  then have "ServeHTTP p rw r gs w = Returns (http_Error rw (''no such group: '' @ grp) 404, gs, w)"
    by (simp add: ServeHTTP_def HasPrefix_append SplitN2_slash Let_def)
  with http_Error_fresh[OF assms, of "''no such group: '' @ grp" 404]
  show "\<exists>rw'. ServeHTTP p rw r gs w = Returns (rw', gs, w)
                         \<and> status rw' = Some 404 \<and> body rw' = ''no such group: '' @ grp @ [CHR 0x0A]"
    by simp
next
  assume a: "URL_Path r = basePath p @ grp @ CHR ''/'' # key \<and> CHR ''/'' \<notin> set grp"
    and n: "GetGroup gs grp = Some g \<and> Group_Get g key w = Returns (Inl err, g', w')"
  then have "ServeHTTP p rw r gs w = Returns (http_Error rw err 500, gs(grp \<mapsto> g'), w')"
    by (simp add: ServeHTTP_def HasPrefix_append SplitN2_slash Let_def)
  with http_Error_fresh[OF assms, of err 500]
  show "\<exists>rw'. ServeHTTP p rw r gs w = Returns (rw', gs(grp \<mapsto> g'), w')
                         \<and> status rw' = Some 500 \<and> body rw' = err @ [CHR 0x0A]"
    by simp
next
  assume a: "URL_Path r = basePath p @ grp @ CHR ''/'' # key \<and> CHR ''/'' \<notin> set grp"
    and n: "GetGroup gs grp = Some g \<and> Group_Get g key w = Returns (Inr v, g', w')
                     \<and> in_bounds (heap w') (b v)"
  obtain s mem1 where cb: "cloneBytes (heap w') (b v) = (s, mem1)" by (cases "cloneBytes (heap w') (b v)")
  from n have ib: "in_bounds (heap w') (b v)" by simp
  have c: "contents mem1 s = contents (heap w') (b v)"
    using cloneBytes_fresh[OF cb] cloneBytes_cells[OF cb ib] by (simp add: contents_def)
  let ?rw1 = "rw\<lparr>Header := (Header rw)(''Content-Type'' \<mapsto> ''application/octet-stream'')\<rparr>"
  from a n have "ServeHTTP p rw r gs w
      = Returns (Write ?rw1 (contents mem1 s), gs(grp \<mapsto> g'), w'\<lparr>heap := mem1\<rparr>)"
    by (simp add: ServeHTTP_def HasPrefix_append SplitN2_slash Let_def ByteSlice_def cb)
  then show "\<exists>rw'. ServeHTTP p rw r gs w
                                 = Returns (rw', gs(grp \<mapsto> g'), w'\<lparr>heap := snd (ByteSlice (heap w') v)\<rparr>)
                         \<and> status rw' = Some 200
                         \<and> Header rw' ''Content-Type'' = Some ''application/octet-stream''
                         \<and> body rw' = String (heap w') v"
    using assms c by (simp add: Write_def WriteHeader_def Let_def ByteSlice_def cb String_def)
qed


lemma scores_Get_Tom:
  "\<exists>v g' w'. Group_Get (scores 2048) ''Tom'' world0 = Returns (Inr v, g', w')
      \<and> in_bounds (heap w') (b v) \<and> String (heap w') v = ''630''"
  by (simp add: group_defs scenario_defs in_bounds_def)

lemma scores_Get_kkk:
  "\<exists>g'. Group_Get (scores 2048) ''kkk'' world0 = Returns (Inl ''kkk not exist'', g', world0)"
  by (simp add: group_defs scenario_defs)

theorem ServeHTTP_responses_witness:
  "(\<exists>rw' gs' w'. ServeHTTP (NewHTTPPool ''http://localhost:8001'') new_response
                     (GET ''/_geecache/scores/Tom'') scores_registry world0 = Returns (rw', gs', w')
        \<and> status rw' = Some 200 \<and> Header rw' ''Content-Type'' = Some ''application/octet-stream''
        \<and> body rw' = ''630'')
   \<and> (\<exists>rw'. ServeHTTP (NewHTTPPool ''http://localhost:8001'') new_response
                     (GET ''/_geecache/unknowngroup/x'') scores_registry world0
                 = Returns (rw', scores_registry, world0)
        \<and> status rw' = Some 404 \<and> body rw' = ''no such group: unknowngroup'' @ [CHR 0x0A])
   \<and> (\<exists>rw'. ServeHTTP (NewHTTPPool ''http://localhost:8001'') new_response
                     (GET ''/_geecache/scores'') scores_registry world0
                 = Returns (rw', scores_registry, world0)
        \<and> status rw' = Some 400 \<and> body rw' = ''bad request'' @ [CHR 0x0A])
   \<and> (\<exists>rw' gs'. ServeHTTP (NewHTTPPool ''http://localhost:8001'') new_response
                     (GET ''/_geecache/scores/kkk'') scores_registry world0
                 = Returns (rw', gs', world0)
        \<and> status rw' = Some 500 \<and> body rw' = ''kkk not exist'' @ [CHR 0x0A])
   \<and> ServeHTTP (NewHTTPPool ''http://localhost:8001'') new_response
         (GET ''/scores/Tom'') scores_registry world0
       = Panics ''HTTPPool serving unexpected path: /scores/Tom''"
proof -
  let ?p = "NewHTTPPool ''http://localhost:8001''"
  have fresh: "status new_response = None" "body new_response = []"
    by (simp_all add: new_response_def)
  have bp: "basePath ?p = ''/_geecache/''" by (simp add: NewHTTPPool_def defaultBasePath_def)
  note T = ServeHTTP_responses[OF fresh, where p = ?p and gs = scores_registry and w = world0]
  have reg: "GetGroup scores_registry ''scores'' = Some (scores 2048)"
    "GetGroup scores_registry ''unknowngroup'' = None"
    by (simp_all add: GetGroup_def scores_registry_def)
  from scores_Get_Tom obtain v g1 w1 where
    tom: "Group_Get (scores 2048) ''Tom'' world0 = Returns (Inr v, g1, w1)"
    and ib: "in_bounds (heap w1) (b v)" and str: "String (heap w1) v = ''630''" by blast
  have h200: "URL_Path (GET ''/_geecache/scores/Tom'') = basePath ?p @ ''scores'' @ CHR ''/'' # ''Tom''
      \<and> CHR ''/'' \<notin> set ''scores''"
    by (simp add: GET_def bp)
  from T[where r = "GET ''/_geecache/scores/Tom''" and grp = "''scores''" and key = "''Tom''"
        and g = "scores 2048" and v = v and g' = g1 and w' = w1,
      THEN conjunct2, THEN conjunct2, rule_format, OF h200, THEN conjunct2, THEN conjunct2, rule_format]
    reg(1) tom ib str
  have a: "\<exists>rw' gs' w'. ServeHTTP ?p new_response (GET ''/_geecache/scores/Tom'') scores_registry world0
                = Returns (rw', gs', w')
        \<and> status rw' = Some 200 \<and> Header rw' ''Content-Type'' = Some ''application/octet-stream''
        \<and> body rw' = ''630''"
    by auto
  have h404: "URL_Path (GET ''/_geecache/unknowngroup/x'') = basePath ?p @ ''unknowngroup'' @ CHR ''/'' # ''x''
      \<and> CHR ''/'' \<notin> set ''unknowngroup''"
    by (simp add: GET_def bp)
  from T[where r = "GET ''/_geecache/unknowngroup/x''" and grp = "''unknowngroup''" and key = "''x''",
      THEN conjunct2, THEN conjunct2, rule_format, OF h404, THEN conjunct1, rule_format, OF reg(2)]
  have c: "\<exists>rw'. ServeHTTP ?p new_response (GET ''/_geecache/unknowngroup/x'') scores_registry world0
                 = Returns (rw', scores_registry, world0)
        \<and> status rw' = Some 404 \<and> body rw' = ''no such group: unknowngroup'' @ [CHR 0x0A]"
    by simp
  have h400: "URL_Path (GET ''/_geecache/scores'') = basePath ?p @ ''scores'' \<and> CHR ''/'' \<notin> set ''scores''"
    by (simp add: GET_def bp)
  from T[where r = "GET ''/_geecache/scores''" and rest = "''scores''",
      THEN conjunct2, THEN conjunct1, rule_format, OF h400]
  have d: "\<exists>rw'. ServeHTTP ?p new_response (GET ''/_geecache/scores'') scores_registry world0
                 = Returns (rw', scores_registry, world0)
        \<and> status rw' = Some 400 \<and> body rw' = ''bad request'' @ [CHR 0x0A]" .
  from scores_Get_kkk obtain g2 where
    kkk: "Group_Get (scores 2048) ''kkk'' world0 = Returns (Inl ''kkk not exist'', g2, world0)" by blast
  have h500: "URL_Path (GET ''/_geecache/scores/kkk'') = basePath ?p @ ''scores'' @ CHR ''/'' # ''kkk''
      \<and> CHR ''/'' \<notin> set ''scores''"
    by (simp add: GET_def bp)
  from T[where r = "GET ''/_geecache/scores/kkk''" and grp = "''scores''" and key = "''kkk''"
        and g = "scores 2048" and err = "''kkk not exist''" and g' = g2 and w' = world0,
      THEN conjunct2, THEN conjunct2, rule_format, OF h500, THEN conjunct2, THEN conjunct1, rule_format]
    reg(1) kkk
  have e: "\<exists>rw' gs'. ServeHTTP ?p new_response (GET ''/_geecache/scores/kkk'') scores_registry world0
                 = Returns (rw', gs', world0)
        \<and> status rw' = Some 500 \<and> body rw' = ''kkk not exist'' @ [CHR 0x0A]"
    by auto
  have hp: "\<not> HasPrefix (URL_Path (GET ''/scores/Tom'')) (basePath ?p)"
    by (simp add: GET_def bp HasPrefix_def)
  from T[where r = "GET ''/scores/Tom''", THEN conjunct1, rule_format, OF hp]
  have f: "ServeHTTP ?p new_response (GET ''/scores/Tom'') scores_registry world0
       = Panics ''HTTPPool serving unexpected path: /scores/Tom''"
    by (simp add: GET_def)
  from a c d e f show ?thesis by blast
qed

text \<open>The body of the 400 response to \<open>/_geecache/scores\<close> is
  \<open>bad request\<close> followed by a newline, not \<open>bad request\<close>; so for 404.
  The rest \<open>scores/Tom/630\<close> has three segments between slashes and is
  answered as the key \<open>Tom/630\<close> of the group \<open>scores\<close>, here with 500
  since the getter does not know it, not with 400.\<close>

theorem ServeHTTP_error_body_counterexample:
  "served (ServeHTTP (NewHTTPPool ''http://localhost:8001'') new_response
             (GET ''/_geecache/scores'') scores_registry world0)
     = Some (Some 400, Some ''text/plain; charset=utf-8'', ''bad request'' @ [CHR 0x0A])
   \<and> ''bad request'' @ [CHR 0x0A] \<noteq> ''bad request''
   \<and> served (ServeHTTP (NewHTTPPool ''http://localhost:8001'') new_response
             (GET ''/_geecache/unknowngroup/x'') scores_registry world0)
     = Some (Some 404, Some ''text/plain; charset=utf-8'', ''no such group: unknowngroup'' @ [CHR 0x0A])
   \<and> served (ServeHTTP (NewHTTPPool ''http://localhost:8001'') new_response
             (GET ''/_geecache/scores/Tom/630'') scores_registry world0)
     = Some (Some 500, Some ''text/plain; charset=utf-8'', ''Tom/630 not exist'' @ [CHR 0x0A])"
  by (simp add: http_defs group_defs scenario_defs)

end
